theory Spec2Isabelle
  imports Main "HOL-Library.Word"
begin

unbundle bit_operations_syntax

section \<open>Data model\<close>

text \<open>
  A Go \<open>string\<close> is a sequence of bytes: it is modelled as \<^typ>\<open>string\<close>, a list of
  8-bit characters, and \<open>[]byte(input)\<close> is the same list. A \<open>rune\<close> is a Unicode code
  point. \<open>*big.Int\<close> is an unbounded integer, \<^typ>\<open>int\<close>. A \<open>uuid.UUID\<close> is a
  \<open>[16]byte\<close> array: a list of sixteen 8-bit words.
\<close>

type_synonym rune = nat
type_synonym uuid = "8 word list"

text \<open>
  The two error structs of \<open>shortuuid.go\<close>. The first field is the offending input
  (\<open>EncodeError.UUID\<close>, \<open>DecodeError.ShortID\<close>). The \<open>Reason\<close> field is a formatted
  message in the source; here each message is a constructor that keeps the values the
  message is formatted from.
\<close>

datatype uuid_error =
    InvalidLength nat          \<comment> \<open>"invalid UUID length: %d"\<close>
  | InvalidFormat              \<comment> \<open>"invalid UUID format"\<close>
  | InvalidUrnPrefix string    \<comment> \<open>"invalid urn prefix: %q"\<close>

datatype reason =
    EmptyInput                 \<comment> \<open>"input string cannot be empty"\<close>
  | InvalidCharacter rune      \<comment> \<open>"contains invalid character '%c' not found in alphabet"\<close>
  | ParseFailed uuid_error     \<comment> \<open>"failed to parse expanded UUID: " + err.Error()\<close>
  | EmptyUUIDString            \<comment> \<open>"UUID string cannot be empty"\<close>
  | InvalidDecodedLength nat   \<comment> \<open>"decoded to invalid length: expected 32 hex characters, got %d"\<close>

datatype error =
    EncodeError (UUID: string) (Reason: reason)
  | DecodeError (ShortID: string) (Reason: reason)

section \<open>Strings and runes\<close>

text \<open>
  \<open>string(result)\<close> on a \<open>[]rune\<close> writes each rune in UTF-8; \<open>for _, char := range encoded\<close>
  reads a string rune by rune, yielding U+FFFD and advancing one byte at an invalid
  sequence (the Go runtime's \<open>encoderune\<close> and \<open>decoderune\<close>).
\<close>

definition runeError :: rune where
  "runeError = 0xFFFD"

definition encoderune :: "rune \<Rightarrow> string" where
  "encoderune r =
     (if r \<le> 0x7F then [char_of r]
      else if r \<le> 0x7FF then
        [char_of (0xC0 OR drop_bit 6 r), char_of (0x80 OR (r AND 0x3F))]
      else if r > 0x10FFFF \<or> (0xD800 \<le> r \<and> r \<le> 0xDFFF) then
        [char_of (0xEF::nat), char_of (0xBF::nat), char_of (0xBD::nat)]
      else if r \<le> 0xFFFF then
        [char_of (0xE0 OR drop_bit 12 r), char_of (0x80 OR (drop_bit 6 r AND 0x3F)),
         char_of (0x80 OR (r AND 0x3F))]
      else
        [char_of (0xF0 OR drop_bit 18 r), char_of (0x80 OR (drop_bit 12 r AND 0x3F)),
         char_of (0x80 OR (drop_bit 6 r AND 0x3F)), char_of (0x80 OR (r AND 0x3F))])"

definition string_of_runes :: "rune list \<Rightarrow> string" where
  "string_of_runes rs = concat (map encoderune rs)"

definition cont_byte :: "char \<Rightarrow> bool" where
  "cont_byte c = (0x80 \<le> (of_char c :: nat) \<and> (of_char c :: nat) \<le> 0xBF)"

definition decoderune :: "string \<Rightarrow> rune \<times> nat" where
  "decoderune s =
     (case s of
        [] \<Rightarrow> (runeError, 1)
      | b0 # t \<Rightarrow>
          let c0 = (of_char b0 :: nat) in
          if 0xC0 \<le> c0 \<and> c0 < 0xE0 then
            (case t of
               b1 # _ \<Rightarrow>
                 let r = push_bit 6 (c0 AND 0x1F) OR (of_char b1 AND 0x3F) in
                 if cont_byte b1 \<and> 0x7F < r then (r, 2) else (runeError, 1)
             | _ \<Rightarrow> (runeError, 1))
          else if 0xE0 \<le> c0 \<and> c0 < 0xF0 then
            (case t of
               b1 # b2 # _ \<Rightarrow>
                 let r = push_bit 12 (c0 AND 0x0F) OR push_bit 6 (of_char b1 AND 0x3F)
                           OR (of_char b2 AND 0x3F) in
                 if cont_byte b1 \<and> cont_byte b2 \<and> 0x7FF < r \<and> \<not> (0xD800 \<le> r \<and> r \<le> 0xDFFF)
                 then (r, 3) else (runeError, 1)
             | _ \<Rightarrow> (runeError, 1))
          else if 0xF0 \<le> c0 \<and> c0 < 0xF8 then
            (case t of
               b1 # b2 # b3 # _ \<Rightarrow>
                 let r = push_bit 18 (c0 AND 0x07) OR push_bit 12 (of_char b1 AND 0x3F)
                           OR push_bit 6 (of_char b2 AND 0x3F) OR (of_char b3 AND 0x3F) in
                 if cont_byte b1 \<and> cont_byte b2 \<and> cont_byte b3 \<and> 0xFFFF < r \<and> r \<le> 0x10FFFF
                 then (r, 4) else (runeError, 1)
             | _ \<Rightarrow> (runeError, 1))
          else (runeError, 1))"

function runes_of :: "string \<Rightarrow> rune list" where
  "runes_of [] = []"
| "runes_of (b # t) =
     (if (of_char b :: nat) < 0x80 then of_char b # runes_of t
      else fst (decoderune (b # t)) # runes_of (drop (snd (decoderune (b # t))) (b # t)))"
  by pat_completeness auto
termination
proof (relation "measure length")
  show "wf (measure length)" by simp
next
  fix b :: char and t :: string
  show "(t, b # t) \<in> measure length" by simp
next
  fix b :: char and t :: string
  have "1 \<le> snd (decoderune (b # t))"
    by (simp add: decoderune_def Let_def split: list.split)
  then show "(drop (snd (decoderune (b # t))) (b # t), b # t) \<in> measure length"
    by simp
qed

section \<open>Alphabet and base conversion engine (\<open>shortuuid.go\<close>)\<close>

definition defaultBase62 :: "rune list" where
  "defaultBase62 =
     map of_char ''0123456789ABCDEFGHIJKLMNOPQRSTUVWXYZabcdefghijklmnopqrstuvwxyz''"

definition base62 :: int where
  "base62 = int (length defaultBase62)"

text \<open>
  The loop of \<open>intToBase\<close>: while \<open>n > 0\<close>, \<open>DivMod\<close> by the base and put the symbol of
  the remainder in front of \<open>result\<close>.
\<close>

function intToBase_loop :: "int \<Rightarrow> rune list \<Rightarrow> rune list" where
  "intToBase_loop n result =
     (if n > 0
      then intToBase_loop (n div base62) (defaultBase62 ! nat (n mod base62) # result)
      else result)"
  by pat_completeness auto
termination
  by (relation "measure (\<lambda>(n, r). nat n)") (auto simp: base62_def defaultBase62_def)

declare intToBase_loop.simps [simp del]

definition intToBase :: "int \<Rightarrow> string" where
  "intToBase num =
     (if num = 0 then string_of_runes [defaultBase62 ! 0]
      else string_of_runes (intToBase_loop num []))"

text \<open>The inner loop of \<open>baseToInt\<close>: the first index of the rune, or \<open>-1\<close>.\<close>

fun find_index :: "rune \<Rightarrow> rune list \<Rightarrow> int \<Rightarrow> int" where
  "find_index char [] i = -1"
| "find_index char (alphabetChar # rest) i =
     (if char = alphabetChar then i else find_index char rest (i + 1))"

fun baseToInt_loop :: "string \<Rightarrow> rune list \<Rightarrow> int \<Rightarrow> error + int" where
  "baseToInt_loop encoded [] result = Inr result"
| "baseToInt_loop encoded (char # rest) result =
     (let index = find_index char defaultBase62 0 in
      if index = -1 then Inl (DecodeError encoded (InvalidCharacter char))
      else baseToInt_loop encoded rest (result * base62 + index))"

definition baseToInt :: "string \<Rightarrow> error + int" where
  "baseToInt encoded = baseToInt_loop encoded (runes_of encoded) 0"

section \<open>String codec (\<open>shortuuid.go\<close>)\<close>

text \<open>\<open>big.Int.SetBytes\<close>: the bytes as a big-endian unsigned integer.\<close>

definition SetBytes :: "string \<Rightarrow> int" where
  "SetBytes bytes = foldl (\<lambda>acc b. acc * 256 + int (of_char b)) 0 bytes"

text \<open>\<open>big.Int.Bytes\<close>: the absolute value as a big-endian byte slice, empty for zero.\<close>

fun bytes_of_nat :: "nat \<Rightarrow> string" where
  "bytes_of_nat n = (if n = 0 then [] else bytes_of_nat (n div 256) @ [char_of (n mod 256)])"

declare bytes_of_nat.simps [simp del]

definition Bytes :: "int \<Rightarrow> string" where
  "Bytes num = bytes_of_nat (nat \<bar>num\<bar>)"

definition encode :: "string \<Rightarrow> error + string" where
  "encode input =
     (if input = [] then Inl (EncodeError input EmptyInput)
      else Inr (intToBase (SetBytes input)))"

definition decode :: "string \<Rightarrow> error + string" where
  "decode shortID =
     (case baseToInt shortID of
        Inl err \<Rightarrow> Inl err
      | Inr num \<Rightarrow> Inr (Bytes num))"

definition Shorten :: "string \<Rightarrow> error + string" where
  "Shorten input = encode input"

definition Expand :: "string \<Rightarrow> error + string" where
  "Expand shortID = decode shortID"

section \<open>The UUID type of the dependency \<open>github.com/google/uuid\<close>\<close>

text \<open>
  \<open>uuid.UUID\<close>, \<open>UUID.String\<close> and \<open>uuid.Parse\<close> belong to the dependency, not to
  the repository; they are written here after the library.

  \<open>UUID.String\<close> writes the sixteen bytes in lowercase hex, with hyphens after the
  bytes 4, 6, 8 and 10 (\<open>hex.Encode\<close> on the five groups).
\<close>

definition hextable :: string where
  "hextable = ''0123456789abcdef''"

fun hex_Encode :: "8 word list \<Rightarrow> string" where
  "hex_Encode [] = []"
| "hex_Encode (v # src) =
     hextable ! unat (drop_bit 4 v) # hextable ! unat (v AND 0x0f) # hex_Encode src"

definition uuid_String :: "uuid \<Rightarrow> string" where
  "uuid_String u =
     hex_Encode (take 4 u) @ ''-'' @ hex_Encode (take 2 (drop 4 u)) @ ''-'' @
     hex_Encode (take 2 (drop 6 u)) @ ''-'' @ hex_Encode (take 2 (drop 8 u)) @ ''-'' @
     hex_Encode (drop 10 u)"

text \<open>
  \<open>uuid.Parse\<close>: the table \<open>xvalues\<close> gives the value of a hex digit of either case and
  255 for any other byte; \<open>xtob\<close> joins two digits into a byte. The accepted forms are
  the 36-byte hyphenated form, the same with the prefix \<open>urn:uuid:\<close> or inside one
  more byte at each end, and 32 hex digits.
\<close>

definition xvalues :: "char \<Rightarrow> 8 word" where
  "xvalues c =
     (let n = (of_char c :: nat) in
      if 48 \<le> n \<and> n \<le> 57 then of_nat (n - 48)
      else if 65 \<le> n \<and> n \<le> 70 then of_nat (n - 55)
      else if 97 \<le> n \<and> n \<le> 102 then of_nat (n - 87)
      else 255)"

definition xtob :: "char \<Rightarrow> char \<Rightarrow> 8 word \<times> bool" where
  "xtob x1 x2 =
     (let b1 = xvalues x1; b2 = xvalues x2
      in (push_bit 4 b1 OR b2, b1 \<noteq> 255 \<and> b2 \<noteq> 255))"

fun parse_at :: "string \<Rightarrow> nat list \<Rightarrow> uuid_error + uuid" where
  "parse_at s [] = Inr []"
| "parse_at s (x # xs) =
     (case xtob (s ! x) (s ! (x + 1)) of
        (v, ok) \<Rightarrow>
          if \<not> ok then Inl InvalidFormat
          else (case parse_at s xs of Inl err \<Rightarrow> Inl err | Inr u \<Rightarrow> Inr (v # u)))"

definition to_lower_ascii :: "char \<Rightarrow> char" where
  "to_lower_ascii c =
     (if 65 \<le> (of_char c :: nat) \<and> (of_char c :: nat) \<le> 90
      then char_of ((of_char c :: nat) + 32) else c)"

definition uuid_Parse :: "string \<Rightarrow> uuid_error + uuid" where
  "uuid_Parse s =
     (if length s = 32 then parse_at s (map (\<lambda>i. i * 2) [0..<16])
      else if length s = 36 \<or> length s = 36 + 9 \<or> length s = 36 + 2 then
        (if length s = 36 + 9 \<and> map to_lower_ascii (take 9 s) \<noteq> ''urn:uuid:''
         then Inl (InvalidUrnPrefix (take 9 s))
         else
           let s' = (if length s = 36 + 9 then drop 9 s
                     else if length s = 36 + 2 then drop 1 s else s)
           in if s' ! 8 \<noteq> CHR ''-'' \<or> s' ! 13 \<noteq> CHR ''-'' \<or> s' ! 18 \<noteq> CHR ''-''
                 \<or> s' ! 23 \<noteq> CHR ''-''
              then Inl InvalidFormat
              else parse_at s' [0, 2, 4, 6, 9, 11, 14, 16, 19, 21, 24, 26, 28, 30, 32, 34])
      else Inl (InvalidLength (length s)))"

section \<open>UUID codec of \<open>shortuuid.go\<close>\<close>

definition ShortenUUID :: "uuid \<Rightarrow> error + string" where
  "ShortenUUID u = Shorten (uuid_String u)"

definition ExpandUUID :: "string \<Rightarrow> error + uuid" where
  "ExpandUUID shortID =
     (case Expand shortID of
        Inl err \<Rightarrow> Inl err
      | Inr uuidStr \<Rightarrow>
          (case uuid_Parse uuidStr of
             Inl err \<Rightarrow> Inl (DecodeError shortID (ParseFailed err))
           | Inr parsedUUID \<Rightarrow> Inr parsedUUID))"

section \<open>UUID codec of the hex revision (second \<open>package shortuuid\<close> in \<open>shortuuid_test.go\<close>)\<close>

text \<open>
  The file \<open>shortuuid_test.go\<close> holds a second copy of the package (from its line 749
  on). Its \<open>Shorten\<close>, \<open>Expand\<close>, \<open>intToBase\<close> and \<open>baseToInt\<close> are those above up to
  the names \<open>encodeString\<close> and \<open>decodeString\<close>, the field name \<open>Input\<close> and the wording
  of the reasons. Its \<open>ShortenUUID\<close> and \<open>ExpandUUID\<close> differ: they go through the hex
  digits of the UUID. They carry the suffix \<open>_hex\<close> here.

  \<open>big.Int.SetString(s, 16)\<close> reads an optional sign and at least one hex digit of either
  case. \<open>encodeHex\<close> drops its result; where the string is not a number, \<open>math/big\<close>
  leaves the value of the receiver undefined, and so does the model.
\<close>

definition digit_val16 :: "char \<Rightarrow> nat option" where
  "digit_val16 c =
     (let n = (of_char c :: nat) in
      if 48 \<le> n \<and> n \<le> 57 then Some (n - 48)
      else if 97 \<le> n \<and> n \<le> 102 then Some (n - 87)
      else if 65 \<le> n \<and> n \<le> 70 then Some (n - 55)
      else None)"

fun scan_digits :: "string \<Rightarrow> int \<Rightarrow> int option" where
  "scan_digits [] acc = Some acc"
| "scan_digits (c # cs) acc =
     (case digit_val16 c of
        None \<Rightarrow> None
      | Some d \<Rightarrow> scan_digits cs (acc * 16 + int d))"

definition parse_hex :: "string \<Rightarrow> int option" where
  "parse_hex s =
     (case s of
        [] \<Rightarrow> None
      | c # cs \<Rightarrow>
          if c = CHR ''+'' then (if cs = [] then None else scan_digits cs 0)
          else if c = CHR ''-'' then
            (if cs = [] then None else map_option uminus (scan_digits cs 0))
          else scan_digits s 0)"

definition SetString16 :: "string \<Rightarrow> int" where
  "SetString16 s = (case parse_hex s of Some n \<Rightarrow> n | None \<Rightarrow> undefined)"

text \<open>\<open>big.Int.Text(16)\<close>: lowercase hex digits without leading zeros, \<open>0\<close> for zero.\<close>

fun hex_of_nat :: "nat \<Rightarrow> string" where
  "hex_of_nat n =
     (if n < 16 then [hextable ! n] else hex_of_nat (n div 16) @ [hextable ! (n mod 16)])"

declare hex_of_nat.simps [simp del]

definition Text16 :: "int \<Rightarrow> string" where
  "Text16 x = (if x < 0 then CHR ''-'' # hex_of_nat (nat (- x)) else hex_of_nat (nat x))"

text \<open>
  \<open>fmt.Sprintf("%032s", str)\<close>: zeros on the left up to a width of 32 runes; a longer
  string is left as it is.
\<close>

definition Sprintf_032s :: "string \<Rightarrow> string" where
  "Sprintf_032s str = replicate (32 - length (runes_of str)) (CHR ''0'') @ str"

definition ReplaceAll_hyphen :: "string \<Rightarrow> string" where
  "ReplaceAll_hyphen str = filter (\<lambda>c. c \<noteq> CHR ''-'') str"

definition encodeHex :: "string \<Rightarrow> error + string" where
  "encodeHex hexStr = Inr (intToBase (SetString16 hexStr))"

definition decodeHex :: "string \<Rightarrow> error + string" where
  "decodeHex shortID =
     (case baseToInt shortID of
        Inl err \<Rightarrow> Inl err
      | Inr num \<Rightarrow> Inr (Sprintf_032s (Text16 num)))"

definition ShortenUUID_hex :: "uuid \<Rightarrow> error + string" where
  "ShortenUUID_hex u =
     (let uuidStr = uuid_String u in
      if uuidStr = [] then Inl (EncodeError uuidStr EmptyUUIDString)
      else encodeHex (ReplaceAll_hyphen uuidStr))"

text \<open>The five slices of \<open>hexStr\<close> joined by hyphens.\<close>

definition hyphenate :: "string \<Rightarrow> string" where
  "hyphenate hexStr =
     take 8 hexStr @ ''-'' @ take 4 (drop 8 hexStr) @ ''-'' @ take 4 (drop 12 hexStr) @ ''-'' @
     take 4 (drop 16 hexStr) @ ''-'' @ take 12 (drop 20 hexStr)"

definition ExpandUUID_hex :: "string \<Rightarrow> error + uuid" where
  "ExpandUUID_hex shortID =
     (case decodeHex shortID of
        Inl err \<Rightarrow> Inl err
      | Inr hexStr \<Rightarrow>
          if length hexStr \<noteq> 32
          then Inl (DecodeError shortID (InvalidDecodedLength (length hexStr)))
          else
            (case uuid_Parse (hyphenate hexStr) of
               Inl err \<Rightarrow> Inl (DecodeError shortID (ParseFailed err))
             | Inr parsedUUID \<Rightarrow> Inr parsedUUID))"

section \<open>Notions of the specification\<close>

text \<open>
  The definitions of this section follow the words of the specification, not the
  code; the theorems below compare the code with them.

  \<open>collect\<close>: divide by 62 repeatedly and collect the symbols of the remainders, the
  least significant first. \<open>intToShort_spec\<close>: the collected symbols reversed, and the
  single symbol of index 0 for zero.
\<close>

function collect :: "int \<Rightarrow> rune list" where
  "collect n =
     (if n > 0 then defaultBase62 ! nat (n mod 62) # collect (n div 62) else [])"
  by pat_completeness auto
termination
  by (relation "measure nat") auto

declare collect.simps [simp del]

definition intToShort_spec :: "int \<Rightarrow> string" where
  "intToShort_spec n =
     string_of_runes (if n = 0 then [defaultBase62 ! 0] else rev (collect n))"

text \<open>
  The alphabet index of a symbol: the number of alphabet symbols before it.
  \<open>shortToInt_spec\<close>: the accumulator starts at zero and becomes
  \<open>accumulator * 62 + index\<close> at each symbol, from left to right; the first symbol
  that is not in the alphabet is reported with the whole input.
\<close>

definition alphabet_index :: "rune \<Rightarrow> nat" where
  "alphabet_index r = length (takeWhile (\<lambda>a. a \<noteq> r) defaultBase62)"

definition shortToInt_spec :: "string \<Rightarrow> error + int" where
  "shortToInt_spec s =
     (case List.find (\<lambda>r. r \<notin> set defaultBase62) (runes_of s) of
        Some r \<Rightarrow> Inl (DecodeError s (InvalidCharacter r))
      | None \<Rightarrow> Inr (foldl (\<lambda>acc r. acc * 62 + int (alphabet_index r)) 0 (runes_of s)))"

text \<open>
  The 128-bit integer value of a UUID (its bytes as a big-endian number), and the
  sixteen big-endian bytes of an integer.
\<close>

definition uuid_value :: "uuid \<Rightarrow> int" where
  "uuid_value u = foldl (\<lambda>acc b. acc * 256 + int (unat b)) 0 u"

fun be_bytes :: "nat \<Rightarrow> nat \<Rightarrow> 8 word list" where
  "be_bytes 0 n = []"
| "be_bytes (Suc k) n = be_bytes k (n div 256) @ [of_nat (n mod 256)]"

definition uuid_of_int :: "int \<Rightarrow> uuid" where
  "uuid_of_int n = be_bytes 16 (nat n)"

definition nil_uuid :: uuid where
  "nil_uuid = replicate 16 0"

section \<open>Lemmas on the engine and the string codec\<close>

lemma base62_eq: "base62 = 62"
  by (simp add: base62_def defaultBase62_def)

lemma runes_of_ascii:
  "\<forall>c \<in> set s. (of_char c :: nat) < 0x80 \<Longrightarrow> runes_of s = map of_char s"
  by (induction s) auto

lemma alphabet_ascii: "r \<in> set defaultBase62 \<Longrightarrow> r < 0x80"
  by (auto simp: defaultBase62_def)

lemma length_defaultBase62: "length defaultBase62 = 62"
  by (simp add: defaultBase62_def)

lemma distinct_defaultBase62: "distinct defaultBase62"
  by (simp add: defaultBase62_def)

lemma encoderune_ascii: "r < 0x80 \<Longrightarrow> encoderune r = [char_of r]"
  by (simp add: encoderune_def)

lemma string_of_runes_ascii:
  "\<forall>r \<in> set rs. r < 0x80 \<Longrightarrow> string_of_runes rs = map char_of rs"
  by (induction rs) (auto simp: string_of_runes_def encoderune_ascii)

lemma of_char_char_of_ascii: "r < 0x80 \<Longrightarrow> (of_char (char_of r :: char) :: nat) = r"
  by simp

lemma find_index_notin: "char \<notin> set xs \<Longrightarrow> find_index char xs i = -1"
  by (induction xs arbitrary: i) auto

lemma find_index_nth:
  "distinct xs \<Longrightarrow> k < length xs \<Longrightarrow> find_index (xs ! k) xs i = i + int k"
proof (induction xs arbitrary: i k)
  case Nil
  then show ?case by simp
next
  case (Cons a xs)
  show ?case
  proof (cases k)
    case 0
    then show ?thesis by simp
  next
    case (Suc j)
    with Cons.prems have "xs ! j \<noteq> a" "distinct xs" "j < length xs" by auto
    with Cons.IH[of j "i + 1"] Suc show ?thesis by simp
  qed
qed

lemma find_index_in:
  "char \<in> set xs \<Longrightarrow> i \<le> find_index char xs i"
proof (induction xs arbitrary: i)
  case Nil
  then show ?case by simp
next
  case (Cons a xs)
  show ?case
  proof (cases "char = a")
    case True
    then show ?thesis by simp
  next
    case False
    with Cons.prems have "char \<in> set xs" by simp
    from Cons.IH[OF this, of "i + 1"] False show ?thesis by simp
  qed
qed

lemma find_index_eq_minus1:
  "find_index char xs 0 = -1 \<longleftrightarrow> char \<notin> set xs"
  using find_index_in[of char xs 0] find_index_notin[of char xs 0] by auto


lemma intToBase_loop_collect: "intToBase_loop n acc = rev (collect n) @ acc"
proof (induction n acc rule: intToBase_loop.induct)
  case (1 n result)
  show ?case
  proof (cases "n > 0")
    case True
    with 1 show ?thesis
      by (subst intToBase_loop.simps, subst collect.simps) (simp add: base62_eq)
  next
    case False
    then show ?thesis
      by (subst intToBase_loop.simps, subst collect.simps) simp
  qed
qed

lemma digit_in_range: "nat (n mod 62) < length defaultBase62"
  by (simp add: length_defaultBase62 nat_less_iff)

lemma collect_pos: "0 < n \<Longrightarrow> collect n = defaultBase62 ! nat (n mod 62) # collect (n div 62)"
  by (subst collect.simps) simp

lemma collect_nonpos: "n \<le> 0 \<Longrightarrow> collect n = []"
  by (subst collect.simps) simp

lemma collect_in_alphabet: "set (collect n) \<subseteq> set defaultBase62"
proof (induction n rule: collect.induct)
  case (1 n)
  show ?case
  proof (cases "n > 0")
    case True
    have "defaultBase62 ! nat (n mod 62) \<in> set defaultBase62"
      using digit_in_range by (rule nth_mem)
    with 1 True show ?thesis by (simp add: collect_pos)
  next
    case False
    then show ?thesis by (simp add: collect_nonpos)
  qed
qed

lemma baseToInt_loop_append:
  "baseToInt_loop e (xs @ ys) r =
     (case baseToInt_loop e xs r of Inl err \<Rightarrow> Inl err | Inr r' \<Rightarrow> baseToInt_loop e ys r')"
  by (induction xs arbitrary: r) (auto simp: Let_def)

lemma baseToInt_loop_collect:
  "0 \<le> n \<Longrightarrow> baseToInt_loop e (rev (collect n)) 0 = Inr n"
proof (induction n rule: collect.induct)
  case (1 n)
  show ?case
  proof (cases "n > 0")
    case True
    have idx: "find_index (defaultBase62 ! nat (n mod 62)) defaultBase62 0 = n mod 62"
      using find_index_nth[OF distinct_defaultBase62 digit_in_range[of n], of 0] by simp
    have IH: "baseToInt_loop e (rev (collect (n div 62))) 0 = Inr (n div 62)"
      using 1 True by (simp add: pos_imp_zdiv_nonneg_iff)
    have "n mod 62 \<noteq> -1"
    proof -
      have "0 \<le> n mod 62" by simp
      then show ?thesis by linarith
    qed
    then show ?thesis
      using True IH idx
      by (simp add: collect_pos baseToInt_loop_append Let_def base62_eq)
  next
    case False
    with 1 have "n = 0" by simp
    then show ?thesis by (simp add: collect_nonpos)
  qed
qed

lemma runes_of_string_of_runes:
  assumes "set rs \<subseteq> set defaultBase62"
  shows "runes_of (string_of_runes rs) = rs"
proof -
  have a: "\<forall>r \<in> set rs. r < 0x80" using assms alphabet_ascii by auto
  then have s: "string_of_runes rs = map char_of rs" by (rule string_of_runes_ascii)
  have "\<forall>c \<in> set (map char_of rs :: string). (of_char c :: nat) < 0x80"
    using a by auto
  then have "runes_of (map char_of rs) = map of_char (map char_of rs :: string)"
    by (rule runes_of_ascii)
  also have "\<dots> = rs" using a by (induction rs) auto
  finally show ?thesis using s by simp
qed

lemma baseToInt_intToBase: "0 \<le> n \<Longrightarrow> baseToInt (intToBase n) = Inr n"
proof (cases "n = 0")
  case True
  have "defaultBase62 ! 0 \<in> set defaultBase62" by (simp add: defaultBase62_def)
  then have "runes_of (string_of_runes [defaultBase62 ! 0]) = [defaultBase62 ! 0]"
    by (intro runes_of_string_of_runes) simp
  moreover have "find_index (defaultBase62 ! 0) defaultBase62 0 = 0"
    using find_index_nth[OF distinct_defaultBase62, of 0 0] by (simp add: length_defaultBase62)
  ultimately show ?thesis using True
    by (simp add: baseToInt_def intToBase_def Let_def)
next
  case False
  assume "0 \<le> n"
  then show ?thesis using False
    by (simp add: baseToInt_def intToBase_def intToBase_loop_collect
        runes_of_string_of_runes collect_in_alphabet baseToInt_loop_collect)
qed

subsection \<open>Bytes and big integers\<close>

lemma SetBytes_snoc: "SetBytes (s @ [c]) = SetBytes s * 256 + int (of_char c)"
  by (simp add: SetBytes_def)

lemma SetBytes_nonneg: "0 \<le> SetBytes s"
  by (induction s rule: rev_induct) (simp_all add: SetBytes_snoc SetBytes_def)

lemma of_char_zero_iff: "(of_char c :: nat) = 0 \<longleftrightarrow> c = CHR 0x00"
proof
  assume "(of_char c :: nat) = 0"
  then have "(of_char c :: nat) = of_char (CHR 0x00)" by simp
  then show "c = CHR 0x00" by (rule of_char_eqI)
qed simp

lemma SetBytes_zero_iff: "SetBytes s = 0 \<longleftrightarrow> (\<forall>c \<in> set s. c = CHR 0x00)"
proof (induction s rule: rev_induct)
  case Nil
  then show ?case by (simp add: SetBytes_def)
next
  case (snoc c s)
  have "0 \<le> SetBytes s" by (rule SetBytes_nonneg)
  then have "SetBytes s * 256 + int (of_char c) = 0 \<longleftrightarrow> SetBytes s = 0 \<and> (of_char c :: nat) = 0"
    by auto
  then show ?case using snoc by (auto simp: SetBytes_snoc of_char_zero_iff)
qed

lemma bytes_of_nat_0: "bytes_of_nat 0 = []"
  by (simp add: bytes_of_nat.simps)

lemma bytes_of_nat_pos: "0 < n \<Longrightarrow> bytes_of_nat n = bytes_of_nat (n div 256) @ [char_of (n mod 256)]"
  by (subst bytes_of_nat.simps) simp

lemma Bytes_SetBytes: "Bytes (SetBytes s) = dropWhile (\<lambda>c. c = CHR 0x00) s"
proof (induction s rule: rev_induct)
  case Nil
  then show ?case by (simp add: Bytes_def SetBytes_def bytes_of_nat_0)
next
  case (snoc c s)
  let ?n = "SetBytes s"
  have nn: "0 \<le> ?n" by (rule SetBytes_nonneg)
  have IH: "bytes_of_nat (nat ?n) = dropWhile (\<lambda>c. c = CHR 0x00) s"
    using snoc nn by (simp add: Bytes_def)
  have val: "nat \<bar>SetBytes (s @ [c])\<bar> = nat ?n * 256 + of_char c"
    using nn by (simp add: SetBytes_snoc nat_add_distrib nat_mult_distrib)
  show ?case
  proof (cases "SetBytes (s @ [c]) = 0")
    case True
    then have "\<forall>x \<in> set (s @ [c]). x = CHR 0x00" by (simp only: SetBytes_zero_iff)
    then have "dropWhile (\<lambda>c. c = CHR 0x00) (s @ [c]) = []" by simp
    with True show ?thesis by (simp add: Bytes_def bytes_of_nat_0)
  next
    case False
    then have pos: "0 < nat ?n * 256 + (of_char c :: nat)"
      using val SetBytes_nonneg[of "s @ [c]"] by linarith
    have "bytes_of_nat (nat ?n * 256 + of_char c) = bytes_of_nat (nat ?n) @ [c]"
      by (subst bytes_of_nat_pos[OF pos]) simp
    then have eq: "Bytes (SetBytes (s @ [c])) = dropWhile (\<lambda>c. c = CHR 0x00) s @ [c]"
      using val IH by (simp add: Bytes_def)
    show ?thesis
    proof (cases "\<forall>x \<in> set s. x = CHR 0x00")
      case True
      with False have "c \<noteq> CHR 0x00" by (auto simp: SetBytes_zero_iff)
      with True eq show ?thesis by (simp add: dropWhile_append)
    next
      case False
      with eq show ?thesis by (auto simp: dropWhile_append)
    qed
  qed
qed


lemma intToBase_0: "intToBase 0 = ''0''"
  by (simp add: intToBase_def string_of_runes_def encoderune_def defaultBase62_def char_of_eq_iff)

lemma Expand_Shorten:
  assumes "s \<noteq> []"
  shows "\<exists>sid. Shorten s = Inr sid \<and> Expand sid = Inr (dropWhile (\<lambda>c. c = CHR 0x00) s)"
proof -
  have "Shorten s = Inr (intToBase (SetBytes s))"
    using assms by (simp add: Shorten_def encode_def)
  moreover have "Expand (intToBase (SetBytes s)) = Inr (Bytes (SetBytes s))"
    by (simp add: Expand_def decode_def baseToInt_intToBase SetBytes_nonneg)
  ultimately show ?thesis by (simp add: Bytes_SetBytes)
qed

subsection \<open>The leading digit of an encoded integer\<close>

lemma last_collect:
  "0 < n \<Longrightarrow> collect n \<noteq> [] \<and> (\<exists>d. 0 < d \<and> d < 62 \<and> last (collect n) = defaultBase62 ! d)"
proof (induction n rule: collect.induct)
  case (1 n)
  show ?case
  proof (cases "0 < n div 62")
    case True
    with 1 have "collect (n div 62) \<noteq> []"
      and "\<exists>d. 0 < d \<and> d < 62 \<and> last (collect (n div 62)) = defaultBase62 ! d"
      by simp_all
    then show ?thesis using "1.prems" by (simp add: collect_pos)
  next
    case False
    with "1.prems" have small: "n < 62" and "n div 62 = 0"
      by (simp_all add: pos_imp_zdiv_pos_iff)
    then have c: "collect n = [defaultBase62 ! nat n]"
      using "1.prems" by (simp add: collect_pos collect_nonpos)
    have "0 < nat n \<and> nat n < 62 \<and> defaultBase62 ! nat n = defaultBase62 ! nat n"
      using "1.prems" small by simp
    then have "\<exists>d. 0 < d \<and> d < 62 \<and> defaultBase62 ! nat n = defaultBase62 ! d" by (rule exI)
    with c show ?thesis by simp
  qed
qed

lemma zero_symbol: "char_of (defaultBase62 ! 0) = CHR ''0''"
  by (simp add: defaultBase62_def char_of_eq_iff)

lemma char_of_alphabet_inj:
  assumes "i < 62" "j < 62" "(char_of (defaultBase62 ! i) :: char) = char_of (defaultBase62 ! j)"
  shows "i = j"
proof -
  have "defaultBase62 ! i \<in> set defaultBase62" "defaultBase62 ! j \<in> set defaultBase62"
    using assms by (simp_all add: length_defaultBase62)
  then have "defaultBase62 ! i < 0x80" "defaultBase62 ! j < 0x80"
    by (auto dest: alphabet_ascii)
  with assms(3) have "defaultBase62 ! i = defaultBase62 ! j" by simp
  with assms(1,2) show ?thesis
    using distinct_defaultBase62 by (simp add: nth_eq_iff_index_eq length_defaultBase62)
qed

lemma intToBase_pos:
  assumes "0 < n"
  shows "intToBase n = map char_of (rev (collect n))"
proof -
  have "\<forall>r \<in> set (rev (collect n)). r < 0x80"
    using collect_in_alphabet[of n] alphabet_ascii by auto
  then have "string_of_runes (rev (collect n)) = map char_of (rev (collect n))"
    by (rule string_of_runes_ascii)
  with assms show ?thesis by (simp add: intToBase_def intToBase_loop_collect)
qed

lemma intToBase_pos_head:
  assumes "0 < n"
  shows "intToBase n \<noteq> [] \<and> hd (intToBase n) \<noteq> CHR ''0''"
proof -
  from last_collect[OF assms] obtain d where ne: "collect n \<noteq> []"
    and d: "0 < d" "d < 62" "last (collect n) = defaultBase62 ! d" by blast
  have "hd (intToBase n) = char_of (last (collect n))"
    using ne by (simp add: intToBase_pos[OF assms] hd_map hd_rev)
  moreover have "(char_of (defaultBase62 ! d) :: char) \<noteq> char_of (defaultBase62 ! 0)"
    using char_of_alphabet_inj[of d 0] d by auto
  ultimately show ?thesis using ne d by (simp add: intToBase_pos[OF assms] zero_symbol)
qed

subsection \<open>\<open>baseToInt\<close> and the accumulator of the specification\<close>

lemma find_index_takeWhile:
  "r \<in> set xs \<Longrightarrow> find_index r xs i = i + int (length (takeWhile (\<lambda>a. a \<noteq> r) xs))"
  by (induction xs arbitrary: i) auto

lemma find_index_alphabet:
  "r \<in> set defaultBase62 \<Longrightarrow> find_index r defaultBase62 0 = int (alphabet_index r)"
  by (simp add: find_index_takeWhile alphabet_index_def)

lemma baseToInt_loop_spec:
  "baseToInt_loop e rs acc =
     (case List.find (\<lambda>r. r \<notin> set defaultBase62) rs of
        Some r \<Rightarrow> Inl (DecodeError e (InvalidCharacter r))
      | None \<Rightarrow> Inr (foldl (\<lambda>acc r. acc * 62 + int (alphabet_index r)) acc rs))"
proof (induction rs arbitrary: acc)
  case Nil
  then show ?case by simp
next
  case (Cons r rs)
  show ?case
  proof (cases "r \<in> set defaultBase62")
    case True
    then have "find_index r defaultBase62 0 = int (alphabet_index r)"
      by (rule find_index_alphabet)
    moreover have "int (alphabet_index r) \<noteq> -1" by simp
    ultimately show ?thesis using True Cons.IH
      by (simp add: Let_def base62_eq split: option.split)
  next
    case False
    then show ?thesis by (simp add: find_index_notin)
  qed
qed

lemma decoderune_high:
  "fst (decoderune s) \<ge> 0x80"
  by (simp add: decoderune_def runeError_def Let_def split: list.split)

lemma runes_in_alphabet_ascii:
  "set (runes_of s) \<subseteq> set defaultBase62 \<Longrightarrow> runes_of s = map of_char s"
proof (induction s rule: runes_of.induct)
  case 1
  then show ?case by simp
next
  case (2 b t)
  show ?case
  proof (cases "(of_char b :: nat) < 0x80")
    case True
    with 2 show ?thesis by simp
  next
    case False
    then have "fst (decoderune (b # t)) \<in> set defaultBase62"
      using "2.prems" by simp
    then have "fst (decoderune (b # t)) < 0x80" by (rule alphabet_ascii)
    with decoderune_high[of "b # t"] show ?thesis by simp
  qed
qed

lemma runes_bytes_alphabet:
  "set (runes_of s) \<subseteq> set defaultBase62 \<longleftrightarrow> (\<forall>c \<in> set s. of_char c \<in> set defaultBase62)"
proof
  assume "set (runes_of s) \<subseteq> set defaultBase62"
  then show "\<forall>c \<in> set s. of_char c \<in> set defaultBase62"
    using runes_in_alphabet_ascii[of s] by auto
next
  assume a: "\<forall>c \<in> set s. of_char c \<in> set defaultBase62"
  then have "\<forall>c \<in> set s. (of_char c :: nat) < 0x80" using alphabet_ascii by blast
  then have "runes_of s = map of_char s" by (rule runes_of_ascii)
  with a show "set (runes_of s) \<subseteq> set defaultBase62" by auto
qed

lemma takeWhile_index:
  "r \<in> set xs \<Longrightarrow>
     length (takeWhile (\<lambda>a. a \<noteq> r) xs) < length xs \<and> xs ! length (takeWhile (\<lambda>a. a \<noteq> r) xs) = r"
  by (induction xs) auto

lemma alphabet_index_nth:
  "r \<in> set defaultBase62 \<Longrightarrow> alphabet_index r < 62 \<and> defaultBase62 ! alphabet_index r = r"
  using takeWhile_index[of r defaultBase62]
  by (simp add: alphabet_index_def length_defaultBase62)

lemma find_SomeD: "List.find P xs = Some x \<Longrightarrow> x \<in> set xs \<and> P x"
  by (induction xs) (auto split: if_splits)

section \<open>Lemmas on the UUID codecs\<close>

subsection \<open>Hex digits of a byte, \<open>uuid.Parse\<close> after \<open>UUID.String\<close>\<close>

lemma nibble_hi_val: "unat (drop_bit 4 (v :: 8 word)) = unat v div 16"
  by (simp add: drop_bit_eq_div unat_div)

lemma nibble_lo_and: "(v :: 8 word) AND 0x0f = take_bit 4 v"
  by (simp add: take_bit_eq_mask mask_eq_exp_minus_1)

lemma nibble_lo_val: "unat ((v :: 8 word) AND 0x0f) = unat v mod 16"
  by (simp add: nibble_lo_and take_bit_eq_mod unat_mod)

lemma unat_byte_less: "unat (v :: 8 word) < 256"
  using unsigned_less[of v] by simp

lemma nibble_hi: "unat (drop_bit 4 (v :: 8 word)) < 16"
  using unat_byte_less[of v] by (simp add: nibble_hi_val)

lemma nibble_lo: "unat ((v :: 8 word) AND 0x0f) < 16"
  by (simp add: nibble_lo_val)

lemma nibbles_join: "push_bit 4 (drop_bit 4 v) OR (v AND 0x0f) = (v :: 8 word)"
  by (simp add: nibble_lo_and bit_eq_iff bit_simps)
     (metis add.commute le_add_diff_inverse2 not_le)

lemma less_16_cases:
  "n < 16 \<Longrightarrow> n \<in> {0, 1, 2, 3, 4, 5, 6, 7, 8, 9, 10, 11, 12, 13, 14, 15 :: nat}"
  by (simp only: insert_iff empty_iff) arith

lemma xvalues_hextable: "n < 16 \<Longrightarrow> xvalues (hextable ! n) = of_nat n"
  by (drule less_16_cases) (auto simp: xvalues_def hextable_def)

lemma xvalues_hextable_ne: "n < 16 \<Longrightarrow> xvalues (hextable ! n) \<noteq> 255"
  by (drule less_16_cases) (auto simp: xvalues_def hextable_def)

lemma xtob_hex: "xtob (hextable ! unat (drop_bit 4 v)) (hextable ! unat (v AND 0x0f)) = (v, True)"
proof -
  have hi: "xvalues (hextable ! unat (drop_bit 4 v)) = drop_bit 4 v"
    using xvalues_hextable[OF nibble_hi, of v] by simp
  have lo: "xvalues (hextable ! unat (v AND 0x0f)) = v AND 0x0f"
    using xvalues_hextable[OF nibble_lo, of v] by simp
  have hi_ne: "xvalues (hextable ! unat (drop_bit 4 v)) \<noteq> 255"
    by (rule xvalues_hextable_ne[OF nibble_hi])
  have lo_ne: "xvalues (hextable ! unat (v AND 0x0f)) \<noteq> 255"
    by (rule xvalues_hextable_ne[OF nibble_lo])
  have "xtob (hextable ! unat (drop_bit 4 v)) (hextable ! unat (v AND 0x0f))
        = (push_bit 4 (xvalues (hextable ! unat (drop_bit 4 v))) OR xvalues (hextable ! unat (v AND 0x0f)), True)"
    using hi_ne lo_ne by (simp only: xtob_def Let_def simp_thms)
  also have "\<dots> = (v, True)"
    by (simp only: hi lo nibbles_join)
  finally show ?thesis .
qed

lemma length16_explicit:
  assumes "length (u :: 'a list) = 16"
  obtains b0 b1 b2 b3 b4 b5 b6 b7 b8 b9 b10 b11 b12 b13 b14 b15
  where "u = [b0, b1, b2, b3, b4, b5, b6, b7, b8, b9, b10, b11, b12, b13, b14, b15]"
proof -
  from assms have "length u = Suc (Suc (Suc (Suc (Suc (Suc (Suc (Suc (Suc (Suc (Suc (Suc (Suc (Suc (Suc (Suc 0)))))))))))))))"
    by simp
  then show ?thesis using that by (auto simp: length_Suc_conv)
qed

lemma hextable_not_hyphen: "n < 16 \<Longrightarrow> hextable ! n \<noteq> CHR ''-''"
  by (drule less_16_cases) (auto simp: hextable_def)

lemma Parse_String: 
  assumes "length u = 16"
  shows "uuid_Parse (uuid_String u) = Inr u"
proof -
  from assms obtain b0 b1 b2 b3 b4 b5 b6 b7 b8 b9 b10 b11 b12 b13 b14 b15
    where u: "u = [b0, b1, b2, b3, b4, b5, b6, b7, b8, b9, b10, b11, b12, b13, b14, b15]"
    by (rule length16_explicit)
  show ?thesis
    unfolding u by (simp add: uuid_Parse_def uuid_String_def xtob_hex)
qed

lemma hextable_nonzero: "n < 16 \<Longrightarrow> hextable ! n \<noteq> CHR 0x00"
  by (drule less_16_cases) (auto simp: hextable_def)

lemma hextable_ascii: "n < 16 \<Longrightarrow> (of_char (hextable ! n) :: nat) < 0x80"
  by (drule less_16_cases) (auto simp: hextable_def)

lemma hextable_not_sign: "n < 16 \<Longrightarrow> hextable ! n \<noteq> CHR ''+'' \<and> hextable ! n \<noteq> CHR ''-''"
  by (drule less_16_cases) (auto simp: hextable_def)

lemma digit_val16_hextable: "n < 16 \<Longrightarrow> digit_val16 (hextable ! n) = Some n"
  by (drule less_16_cases) (auto simp: digit_val16_def hextable_def)

subsection \<open>Round trip of \<open>shortuuid.go\<close>\<close>

lemma uuid_String_head:
  assumes "length u = 16"
  shows "uuid_String u \<noteq> [] \<and> hd (uuid_String u) \<noteq> CHR 0x00"
proof -
  from assms obtain b0 b1 b2 b3 b4 b5 b6 b7 b8 b9 b10 b11 b12 b13 b14 b15
    where u: "u = [b0, b1, b2, b3, b4, b5, b6, b7, b8, b9, b10, b11, b12, b13, b14, b15]"
    by (rule length16_explicit)
  show ?thesis
    unfolding u by (simp add: uuid_String_def hextable_nonzero nibble_hi)
qed

lemma ShortenUUID_eq:
  assumes "length u = 16"
  shows "ShortenUUID u = Inr (intToBase (SetBytes (uuid_String u)))"
  using uuid_String_head[OF assms] by (simp add: ShortenUUID_def Shorten_def encode_def)

lemma ExpandUUID_ShortenUUID:
  assumes "length u = 16"
  shows "\<exists>sid. ShortenUUID u = Inr sid \<and> ExpandUUID sid = Inr u"
proof -
  from uuid_String_head[OF assms] have ne: "uuid_String u \<noteq> []"
    and hd: "hd (uuid_String u) \<noteq> CHR 0x00" by simp_all
  then have "dropWhile (\<lambda>c. c = CHR 0x00) (uuid_String u) = uuid_String u"
    by (cases "uuid_String u") simp_all
  with Expand_Shorten[OF ne] obtain sid
    where sid: "Shorten (uuid_String u) = Inr sid" "Expand sid = Inr (uuid_String u)"
    by auto
  then have "ExpandUUID sid = Inr u"
    by (simp add: ExpandUUID_def Parse_String[OF assms])
  with sid show ?thesis by (simp add: ShortenUUID_def)
qed

subsection \<open>\<open>ShortenUUID\<close> of the hex revision\<close>

lemma hex_Encode_append: "hex_Encode (xs @ ys) = hex_Encode xs @ hex_Encode ys"
  by (induction xs) simp_all

lemma hex_Encode_no_hyphen: "filter (\<lambda>c. c \<noteq> CHR ''-'') (hex_Encode xs) = hex_Encode xs"
  by (induction xs) (simp_all add: hextable_not_hyphen nibble_hi nibble_lo)

lemma length_hex_Encode: "length (hex_Encode xs) = 2 * length xs"
  by (induction xs) simp_all

lemma ReplaceAll_uuid_String:
  assumes "length u = 16"
  shows "ReplaceAll_hyphen (uuid_String u) = hex_Encode u"
proof -
  from assms obtain b0 b1 b2 b3 b4 b5 b6 b7 b8 b9 b10 b11 b12 b13 b14 b15
    where u: "u = [b0, b1, b2, b3, b4, b5, b6, b7, b8, b9, b10, b11, b12, b13, b14, b15]"
    by (rule length16_explicit)
  have "take 4 u @ take 2 (drop 4 u) @ take 2 (drop 6 u) @ take 2 (drop 8 u) @ drop 10 u = u"
    unfolding u by simp
  then have "hex_Encode u = hex_Encode (take 4 u) @ hex_Encode (take 2 (drop 4 u)) @
      hex_Encode (take 2 (drop 6 u)) @ hex_Encode (take 2 (drop 8 u)) @ hex_Encode (drop 10 u)"
    by (metis hex_Encode_append)
  then show ?thesis
    by (simp add: ReplaceAll_hyphen_def uuid_String_def hex_Encode_no_hyphen)
qed

lemma hyphenate_hex_Encode:
  assumes "length u = 16"
  shows "hyphenate (hex_Encode u) = uuid_String u"
proof -
  from assms obtain b0 b1 b2 b3 b4 b5 b6 b7 b8 b9 b10 b11 b12 b13 b14 b15
    where u: "u = [b0, b1, b2, b3, b4, b5, b6, b7, b8, b9, b10, b11, b12, b13, b14, b15]"
    by (rule length16_explicit)
  show ?thesis unfolding u by (simp add: hyphenate_def uuid_String_def)
qed

lemma byte_split: "int (unat (v :: 8 word) div 16) * 16 + int (unat v mod 16) = int (unat v)"
proof -
  have "int (unat v div 16 * 16 + unat v mod 16) = int (unat v)" by simp
  then show ?thesis by (simp only: of_nat_add of_nat_mult of_nat_numeral)
qed

lemma scan_digits_hex_Encode:
  "scan_digits (hex_Encode u) acc = Some (foldl (\<lambda>acc b. acc * 256 + int (unat b)) acc u)"
proof (induction u arbitrary: acc)
  case Nil
  then show ?case by simp
next
  case (Cons v u)
  have hi: "digit_val16 (hextable ! unat (drop_bit 4 v)) = Some (unat v div 16)"
    using digit_val16_hextable[OF nibble_hi, of v] by (simp add: nibble_hi_val)
  have lo: "digit_val16 (hextable ! unat (v AND 0x0f)) = Some (unat v mod 16)"
    using digit_val16_hextable[OF nibble_lo, of v] by (simp add: nibble_lo_val)
  have e: "(acc * 16 + int (unat v div 16)) * 16 + int (unat v mod 16) = acc * 256 + int (unat v)"
    using byte_split[of v] by (simp only: algebra_simps)
  have "scan_digits (hex_Encode (v # u)) acc
        = scan_digits (hex_Encode u) ((acc * 16 + int (unat v div 16)) * 16 + int (unat v mod 16))"
    by (simp only: hex_Encode.simps scan_digits.simps hi lo option.case)
  also have "\<dots> = scan_digits (hex_Encode u) (acc * 256 + int (unat v))"
    by (simp only: e)
  also have "\<dots> = Some (foldl (\<lambda>acc b. acc * 256 + int (unat b)) (acc * 256 + int (unat v)) u)"
    by (rule Cons.IH)
  finally show ?case by simp
qed

lemma parse_hex_hex_Encode:
  assumes "u \<noteq> []"
  shows "parse_hex (hex_Encode u) = Some (uuid_value u)"
proof -
  from assms obtain v w where u: "u = v # w" by (cases u) auto
  have "hextable ! unat (drop_bit 4 v) \<noteq> CHR ''+'' \<and> hextable ! unat (drop_bit 4 v) \<noteq> CHR ''-''"
    by (rule hextable_not_sign[OF nibble_hi])
  then have "parse_hex (hex_Encode u) = scan_digits (hex_Encode u) 0"
    unfolding u by (simp add: parse_hex_def)
  then show ?thesis by (simp add: scan_digits_hex_Encode uuid_value_def)
qed

lemma ShortenUUID_hex_eq:
  assumes "length u = 16"
  shows "ShortenUUID_hex u = Inr (intToBase (uuid_value u))"
proof -
  from assms have "u \<noteq> []" by auto
  then have "SetString16 (hex_Encode u) = uuid_value u"
    by (simp add: SetString16_def parse_hex_hex_Encode)
  then show ?thesis
    using uuid_String_head[OF assms]
    by (simp add: ShortenUUID_hex_def Let_def encodeHex_def ReplaceAll_uuid_String[OF assms])
qed

subsection \<open>Hex rendering and zero padding\<close>

lemma hex_of_nat_small: "n < 16 \<Longrightarrow> hex_of_nat n = [hextable ! n]"
  by (subst hex_of_nat.simps) simp

lemma hex_of_nat_big: "16 \<le> n \<Longrightarrow> hex_of_nat n = hex_of_nat (n div 16) @ [hextable ! (n mod 16)]"
  by (subst hex_of_nat.simps) simp

lemma hex_of_nat_ascii: "\<forall>c \<in> set (hex_of_nat n). (of_char c :: nat) < 0x80"
proof (induction n rule: hex_of_nat.induct)
  case (1 n)
  show ?case
  proof (cases "n < 16")
    case True
    then show ?thesis by (simp add: hex_of_nat_small hextable_ascii)
  next
    case False
    with 1 show ?thesis by (simp add: hex_of_nat_big hextable_ascii)
  qed
qed

lemma length_hex_of_nat_ge: "16 ^ k \<le> n \<Longrightarrow> k < length (hex_of_nat n)"
proof (induction k arbitrary: n)
  case 0
  show ?case by (cases "n < 16") (simp_all add: hex_of_nat_small hex_of_nat_big)
next
  case (Suc k)
  then have big: "16 \<le> n"
    by (metis One_nat_def le_trans one_le_numeral one_le_power power_Suc mult.right_neutral mult_le_mono2)
  from Suc.prems have "16 ^ k \<le> n div 16"
    by (simp add: less_eq_div_iff_mult_less_eq mult.commute)
  then have "k < length (hex_of_nat (n div 16))" by (rule Suc.IH)
  then show ?case by (simp add: hex_of_nat_big[OF big])
qed

lemma be_bytes_zero: "be_bytes k 0 = replicate k 0"
  by (induction k) (simp_all flip: replicate_append_same)

lemma hex_Encode_zero: "hex_Encode (replicate k 0) = replicate (2 * k) (CHR ''0'')"
  by (induction k) (simp_all add: hextable_def)

lemma length_be_bytes: "length (be_bytes k n) = k"
  by (induction k arbitrary: n) simp_all

lemma hex_Encode_snoc:
  "hex_Encode (xs @ [v]) = hex_Encode xs @ [hextable ! (unat v div 16), hextable ! (unat v mod 16)]"
  by (simp add: hex_Encode_append nibble_hi_val nibble_lo_val)

lemma unat_byte_of_nat: "unat (of_nat (n mod 256) :: 8 word) = n mod 256"
  by (simp add: unat_of_nat)

lemma hex_Encode_be_bytes_Suc:
  "hex_Encode (be_bytes (Suc k) n) =
     hex_Encode (be_bytes k (n div 256)) @ [hextable ! (n div 16 mod 16), hextable ! (n mod 16)]"
proof -
  have e: "n mod 256 = 16 * (n div 16 mod 16) + n mod 16"
    using mod_mult2_eq[of n 16 16] by simp
  have "n mod 256 div 16 = n div 16 mod 16"
    unfolding e by simp
  moreover have "n mod 256 mod 16 = n mod 16"
    unfolding e by simp
  ultimately show ?thesis
    by (simp only: be_bytes.simps hex_Encode_snoc unat_byte_of_nat)
qed

lemma hex_of_nat_two:
  "256 \<le> n \<Longrightarrow> hex_of_nat n = hex_of_nat (n div 256) @ [hextable ! (n div 16 mod 16), hextable ! (n mod 16)]"
proof -
  assume n: "256 \<le> n"
  then have "16 \<le> n" and "16 \<le> n div 16" by simp_all
  then have "hex_of_nat n = hex_of_nat (n div 16 div 16) @ [hextable ! (n div 16 mod 16)] @ [hextable ! (n mod 16)]"
    by (simp add: hex_of_nat_big)
  moreover have "n div 16 div 16 = n div 256" by (simp add: div_mult2_eq[symmetric])
  ultimately show ?thesis by simp
qed

lemma pad_hex_of_nat:
  "n < 256 ^ Suc k \<Longrightarrow>
     replicate (2 * Suc k - length (hex_of_nat n)) (CHR ''0'') @ hex_of_nat n
       = hex_Encode (be_bytes (Suc k) n)"
proof (induction k arbitrary: n)
  case 0
  have enc: "hex_Encode (be_bytes (Suc 0) n) = [hextable ! (n div 16 mod 16), hextable ! (n mod 16)]"
    using hex_Encode_be_bytes_Suc[of 0 n]
    by (simp only: be_bytes.simps(1) hex_Encode.simps(1) append_Nil)
  show ?case
  proof (cases "n < 16")
    case True
    then have "hex_of_nat n = [hextable ! n]" by (rule hex_of_nat_small)
    moreover have "hextable ! 0 = CHR ''0''" by (simp add: hextable_def)
    ultimately show ?thesis using True by (simp only: enc) simp
  next
    case False
    with 0 have "n div 16 < 16" by simp
    with False have "hex_of_nat n = [hextable ! (n div 16), hextable ! (n mod 16)]"
      by (simp add: hex_of_nat_big hex_of_nat_small)
    with \<open>n div 16 < 16\<close> show ?thesis by (simp only: enc) simp
  qed
next
  case (Suc k)
  show ?case
  proof (cases "n < 256")
    case True
    then have z: "n div 256 = 0" by simp
    have enc: "hex_Encode (be_bytes (Suc (Suc k)) n)
          = replicate (2 * Suc k) (CHR ''0'') @ [hextable ! (n div 16 mod 16), hextable ! (n mod 16)]"
      by (simp only: hex_Encode_be_bytes_Suc[of "Suc k" n] z be_bytes_zero hex_Encode_zero)
    show ?thesis
    proof (cases "n < 16")
      case True
      then have h: "hex_of_nat n = [hextable ! n]" by (rule hex_of_nat_small)
      have z: "hextable ! 0 = CHR ''0''" by (simp add: hextable_def)
      have "replicate (2 * Suc (Suc k) - length [hextable ! n]) (CHR ''0'') @ [hextable ! n]
          = replicate (2 * Suc k) (CHR ''0'') @ [CHR ''0'', hextable ! n]"
        by (simp add: replicate_app_Cons_same)
      with True show ?thesis by (simp only: enc h) (simp add: z)
    next
      case False
      with \<open>n < 256\<close> have "n div 16 < 16" by simp
      with False have "hex_of_nat n = [hextable ! (n div 16), hextable ! (n mod 16)]"
        by (simp add: hex_of_nat_big hex_of_nat_small)
      with \<open>n div 16 < 16\<close> show ?thesis by (simp only: enc) simp
    qed
  next
    case False
    then have big: "256 \<le> n" by simp
    from Suc.prems have "n div 256 < 256 ^ Suc k"
      by (simp add: less_mult_imp_div_less mult.commute)
    then have IH: "replicate (2 * Suc k - length (hex_of_nat (n div 256))) (CHR ''0'') @ hex_of_nat (n div 256)
       = hex_Encode (be_bytes (Suc k) (n div 256))" by (rule Suc.IH)
    have "replicate (2 * Suc (Suc k) - length (hex_of_nat n)) (CHR ''0'') @ hex_of_nat n
        = (replicate (2 * Suc k - length (hex_of_nat (n div 256))) (CHR ''0'') @ hex_of_nat (n div 256))
          @ [hextable ! (n div 16 mod 16), hextable ! (n mod 16)]"
      by (simp add: hex_of_nat_two[OF big])
    also have "\<dots> = hex_Encode (be_bytes (Suc (Suc k)) n)"
      by (simp only: IH hex_Encode_be_bytes_Suc[of "Suc k" n])
    finally show ?thesis .
  qed
qed

subsection \<open>The integer value of a UUID, \<open>ExpandUUID\<close> of the hex revision\<close>

lemma uuid_value_snoc: "uuid_value (u @ [b]) = uuid_value u * 256 + int (unat b)"
  by (simp add: uuid_value_def)

lemma uuid_value_nonneg: "0 \<le> uuid_value u"
  by (induction u rule: rev_induct) (simp_all add: uuid_value_snoc, simp add: uuid_value_def)

lemma nat_uuid_value_snoc: "nat (uuid_value (u @ [b])) = nat (uuid_value u) * 256 + unat b"
  using uuid_value_nonneg[of u]
  by (simp add: uuid_value_snoc nat_add_distrib nat_mult_distrib)

lemma be_bytes_uuid_value: "be_bytes (length u) (nat (uuid_value u)) = u"
proof (induction u rule: rev_induct)
  case Nil
  then show ?case by simp
next
  case (snoc b u)
  have "unat b < 256" by (rule unat_byte_less)
  then have "(nat (uuid_value u) * 256 + unat b) div 256 = nat (uuid_value u)"
    and "(nat (uuid_value u) * 256 + unat b) mod 256 = unat b"
    by simp_all
  with snoc show ?case by (simp add: nat_uuid_value_snoc)
qed

lemma uuid_value_bound: "nat (uuid_value u) < 256 ^ length u"
proof (induction u rule: rev_induct)
  case Nil
  then show ?case by (simp add: uuid_value_def)
next
  case (snoc b u)
  have "unat b < 256" by (rule unat_byte_less)
  with snoc have "nat (uuid_value u) * 256 + unat b < (nat (uuid_value u) + 1) * 256" by simp
  also have "\<dots> \<le> 256 ^ length u * 256"
  proof (rule mult_le_mono1)
    from snoc have "Suc (nat (uuid_value u)) \<le> 256 ^ length u" by (rule Suc_leI)
    then show "nat (uuid_value u) + 1 \<le> 256 ^ length u" by (simp only: Suc_eq_plus1)
  qed
  finally show ?case by (simp add: nat_uuid_value_snoc)
qed

lemma uuid_value_be_bytes: "n < 256 ^ k \<Longrightarrow> uuid_value (be_bytes k n) = int n"
proof (induction k arbitrary: n)
  case 0
  then show ?case by (simp add: uuid_value_def)
next
  case (Suc k)
  then have "n div 256 < 256 ^ k"
    by (simp add: less_mult_imp_div_less mult.commute)
  then have "uuid_value (be_bytes k (n div 256)) = int (n div 256)" by (rule Suc.IH)
  moreover have "int (n div 256) * 256 + int (n mod 256) = int n"
  proof -
    have "int (n div 256 * 256 + n mod 256) = int n" by simp
    then show ?thesis by (simp only: of_nat_add of_nat_mult of_nat_numeral)
  qed
  ultimately show ?case
    by (simp add: uuid_value_snoc unat_byte_of_nat)
qed

lemma Sprintf_Text16:
  "0 \<le> n \<Longrightarrow>
     Sprintf_032s (Text16 n) = replicate (32 - length (hex_of_nat (nat n))) (CHR ''0'') @ hex_of_nat (nat n)"
  using runes_of_ascii[OF hex_of_nat_ascii, of "nat n"]
  by (simp add: Sprintf_032s_def Text16_def)

lemma Sprintf_Text16_small:
  assumes "0 \<le> n" "n < 2 ^ 128"
  shows "Sprintf_032s (Text16 n) = hex_Encode (uuid_of_int n)"
proof -
  have "nat n < 256 ^ Suc 15" using assms by (simp add: nat_less_iff)
  from pad_hex_of_nat[OF this] show ?thesis
    using assms(1) by (simp add: Sprintf_Text16 uuid_of_int_def)
qed

lemma Sprintf_Text16_big:
  assumes "2 ^ 128 \<le> n"
  shows "Sprintf_032s (Text16 n) = Text16 n \<and> 32 < length (Text16 n)"
proof -
  have nn: "0 \<le> n" using assms by (simp add: order_trans[of 0 "2 ^ 128" n])
  have "(16::nat) ^ 32 \<le> nat n" using assms by (simp add: le_nat_iff)
  then have "32 < length (hex_of_nat (nat n))" by (rule length_hex_of_nat_ge)
  then show ?thesis using nn by (simp add: Sprintf_Text16) (simp add: Text16_def)
qed

lemma length_uuid_of_int: "length (uuid_of_int n) = 16"
  by (simp add: uuid_of_int_def length_be_bytes)

lemma baseToInt_nonneg:
  assumes "baseToInt s = Inr n"
  shows "0 \<le> n"
proof -
  have "0 \<le> acc \<Longrightarrow> 0 \<le> foldl (\<lambda>acc r. acc * 62 + int (alphabet_index r)) acc rs" for acc rs
    by (induction rs arbitrary: acc) simp_all
  then show ?thesis
    using assms by (auto simp: baseToInt_def baseToInt_loop_spec split: option.splits)
qed

lemma ExpandUUID_hex_small:
  assumes "baseToInt s = Inr n" "n < 2 ^ 128"
  shows "ExpandUUID_hex s = Inr (uuid_of_int n)"
proof -
  have nn: "0 \<le> n" using assms(1) by (rule baseToInt_nonneg)
  have hex: "Sprintf_032s (Text16 n) = hex_Encode (uuid_of_int n)"
    using nn assms(2) by (rule Sprintf_Text16_small)
  have "uuid_Parse (hyphenate (hex_Encode (uuid_of_int n))) = Inr (uuid_of_int n)"
    by (simp add: hyphenate_hex_Encode length_uuid_of_int Parse_String)
  then show ?thesis
    using assms(1) 
    by (simp add: ExpandUUID_hex_def decodeHex_def hex length_hex_Encode length_uuid_of_int)
qed

lemma ExpandUUID_hex_big:
  assumes "baseToInt s = Inr n" "2 ^ 128 \<le> n"
  shows "ExpandUUID_hex s = Inl (DecodeError s (InvalidDecodedLength (length (Text16 n))))"
  using assms(1) Sprintf_Text16_big[OF assms(2)]
  by (simp add: ExpandUUID_hex_def decodeHex_def)

lemma ExpandUUID_hex_ShortenUUID_hex:
  assumes "length u = 16"
  shows "\<exists>sid. ShortenUUID_hex u = Inr sid \<and> ExpandUUID_hex sid = Inr u"
proof -
  let ?n = "uuid_value u"
  have nn: "0 \<le> ?n" by (rule uuid_value_nonneg)
  have "nat ?n < 256 ^ 16" using uuid_value_bound[of u] assms by simp
  then have lt: "?n < 2 ^ 128" using nn by (simp add: nat_less_iff)
  have "baseToInt (intToBase ?n) = Inr ?n" using nn by (rule baseToInt_intToBase)
  then have "ExpandUUID_hex (intToBase ?n) = Inr (uuid_of_int ?n)"
    using lt by (rule ExpandUUID_hex_small)
  moreover have "uuid_of_int ?n = u"
    using be_bytes_uuid_value[of u] assms by (simp add: uuid_of_int_def)
  ultimately show ?thesis by (simp add: ShortenUUID_hex_eq[OF assms])
qed

subsection \<open>From a short ID without leading zero symbol back to \<open>intToBase\<close>\<close>

lemma alphabet_explicit:
  "defaultBase62 =
    [0x30, 0x31, 0x32, 0x33, 0x34, 0x35, 0x36, 0x37, 0x38, 0x39, 0x41, 0x42,
     0x43, 0x44, 0x45, 0x46, 0x47, 0x48, 0x49, 0x4A, 0x4B, 0x4C, 0x4D, 0x4E,
     0x4F, 0x50, 0x51, 0x52, 0x53, 0x54, 0x55, 0x56, 0x57, 0x58, 0x59, 0x5A,
     0x61, 0x62, 0x63, 0x64, 0x65, 0x66, 0x67, 0x68, 0x69, 0x6A, 0x6B, 0x6C,
     0x6D, 0x6E, 0x6F, 0x70, 0x71, 0x72, 0x73, 0x74, 0x75, 0x76, 0x77, 0x78,
     0x79, 0x7A]"
  by (simp add: defaultBase62_def)

lemma alphabet_index_zero:
  assumes "r \<in> set defaultBase62" "alphabet_index r = 0"
  shows "r = 48"
proof -
  from alphabet_index_nth[OF assms(1)] assms(2) have "defaultBase62 ! 0 = r" by simp
  then show ?thesis by (simp add: defaultBase62_def)
qed

lemma collect_foldl:
  assumes "set rs \<subseteq> set defaultBase62" "rs \<noteq> []" "hd rs \<noteq> 48"
  shows "0 < foldl (\<lambda>acc r. acc * 62 + int (alphabet_index r)) 0 rs
       \<and> rev (collect (foldl (\<lambda>acc r. acc * 62 + int (alphabet_index r)) 0 rs)) = rs"
  using assms
proof (induction rs rule: rev_induct)
  case Nil
  then show ?case by simp
next
  case (snoc r ys)
  let ?f = "\<lambda>acc r. acc * 62 + int (alphabet_index r)"
  from snoc.prems have r: "r \<in> set defaultBase62" by simp
  from alphabet_index_nth[OF r] have lt: "alphabet_index r < 62"
    and nth: "defaultBase62 ! alphabet_index r = r" by simp_all
  show ?case
  proof (cases "ys = []")
    case True
    with snoc.prems have "r \<noteq> 48" by simp
    with alphabet_index_zero[OF r] have pos: "0 < alphabet_index r" by auto
    have "collect (int (alphabet_index r)) = [r]"
      using pos lt nth by (simp add: collect_pos collect_nonpos nat_mod_distrib)
    with True pos show ?thesis by simp
  next
    case False
    with snoc.prems have "set ys \<subseteq> set defaultBase62" "hd ys \<noteq> 48" by simp_all
    with snoc.IH False have m: "0 < foldl ?f 0 ys" and IH: "rev (collect (foldl ?f 0 ys)) = ys"
      by simp_all
    let ?m = "foldl ?f 0 ys"
    let ?n = "?m * 62 + int (alphabet_index r)"
    have n: "0 < ?n" using m by simp
    have d: "?n div 62 = ?m" using lt by simp
    have md: "nat (?n mod 62) = alphabet_index r" using lt by simp
    have "collect ?n = r # collect ?m"
      using n by (simp only: collect_pos[OF n] d md nth)
    with IH n show ?thesis by simp
  qed
qed

lemma intToBase_baseToInt:
  assumes "baseToInt s = Inr n" "s \<noteq> []" "hd s \<noteq> CHR ''0''"
  shows "intToBase n = s"
proof -
  let ?f = "\<lambda>acc r. acc * 62 + int (alphabet_index r)"
  from assms(1) have sub: "set (runes_of s) \<subseteq> set defaultBase62"
    and n: "n = foldl ?f 0 (runes_of s)"
    by (auto simp: baseToInt_def baseToInt_loop_spec find_None_iff split: option.splits)
  from sub have rs: "runes_of s = map of_char s" by (rule runes_in_alphabet_ascii)
  have "hd (map of_char s) \<noteq> (48::nat)"
  proof
    assume "hd (map of_char s) = (48::nat)"
    with assms(2) have "(of_char (hd s) :: nat) = of_char (CHR ''0'')" by (simp add: hd_map)
    then have "hd s = CHR ''0''" by (rule of_char_eqI)
    with assms(3) show False by simp
  qed
  with collect_foldl[of "map of_char s"] sub rs assms(2)
  have pos: "0 < n" and c: "rev (collect n) = map of_char s"
    by (simp_all add: n)
  have "intToBase n = map char_of (rev (collect n))"
    using pos by (rule intToBase_pos)
  then show ?thesis by (simp add: c comp_def)
qed

subsection \<open>Values at the all-zero UUID and further facts for the theorems\<close>

lemma baseToInt_nil_id:
  "baseToInt ''rZPELhMUZzQ6153VPkcPQAzJsDKO9ygnfeDZBh4Cffxj9amO''
     = Inr 93613785677136309111285427482042669821784079333893112000368165842124308540514615963696"
  by (simp add: baseToInt_def base62_eq alphabet_explicit)

lemma SetBytes_nil_string:
  "SetBytes ''00000000-0000-0000-0000-000000000000''
     = 93613785677136309111285427482042669821784079333893112000368165842124308540514615963696"
  by (simp add: SetBytes_def)

lemma length_uuid_String: "length u = 16 \<Longrightarrow> length (uuid_String u) = 36"
  by (simp add: uuid_String_def length_hex_Encode)

lemma uuid_String_nil: "uuid_String nil_uuid = ''00000000-0000-0000-0000-000000000000''"
  by (simp add: nil_uuid_def uuid_String_def hextable_def eval_nat_numeral)

lemma length_nil_uuid: "length nil_uuid = 16"
  by (simp add: nil_uuid_def)

lemma uuid_value_nil: "uuid_value nil_uuid = 0"
  by (simp add: nil_uuid_def uuid_value_def eval_nat_numeral)

lemma ShortenUUID_nil:
  "ShortenUUID nil_uuid = Inr ''rZPELhMUZzQ6153VPkcPQAzJsDKO9ygnfeDZBh4Cffxj9amO''"
proof -
  have "intToBase (SetBytes ''00000000-0000-0000-0000-000000000000'')
        = ''rZPELhMUZzQ6153VPkcPQAzJsDKO9ygnfeDZBh4Cffxj9amO''"
    unfolding SetBytes_nil_string
    by (rule intToBase_baseToInt[OF baseToInt_nil_id]) simp_all
  then show ?thesis
    by (simp add: ShortenUUID_eq[OF length_nil_uuid] uuid_String_nil)
qed

lemma Expand_zero_symbol: "Expand ''0'' = Inr []"
  by (simp add: Expand_def decode_def baseToInt_def base62_eq alphabet_explicit Bytes_def bytes_of_nat_0)

lemma decodeHex_eq:
  assumes "baseToInt s = Inr n"
  shows "decodeHex s = Inr (replicate (32 - length (Text16 n)) (CHR ''0'') @ Text16 n)"
proof -
  have nn: "0 \<le> n" using assms by (rule baseToInt_nonneg)
  then have "Text16 n = hex_of_nat (nat n)" by (simp add: Text16_def)
  with Sprintf_Text16[OF nn] assms show ?thesis by (simp add: decodeHex_def)
qed

lemma uuid_of_int_props:
  assumes "0 \<le> n" "n < 2 ^ 128"
  shows "uuid_value (uuid_of_int n) = n
       \<and> hyphenate (Sprintf_032s (Text16 n)) = uuid_String (uuid_of_int n)"
proof -
  have "nat n < 256 ^ 16" using assms by (simp add: nat_less_iff)
  then have "uuid_value (be_bytes 16 (nat n)) = int (nat n)" by (rule uuid_value_be_bytes)
  with assms(1) have "uuid_value (uuid_of_int n) = n" by (simp add: uuid_of_int_def)
  then show ?thesis
    by (simp add: Sprintf_Text16_small[OF assms] hyphenate_hex_Encode length_uuid_of_int)
qed

lemma ExpandUUID_eq:
  assumes "baseToInt s = Inr n"
  shows "ExpandUUID s =
     (case uuid_Parse (Bytes n) of
        Inl err \<Rightarrow> Inl (DecodeError s (ParseFailed err))
      | Inr u \<Rightarrow> Inr u)"
  using assms by (simp add: ExpandUUID_def Expand_def decode_def)

lemma ExpandUUID_hex_parse_error:
  assumes "decodeHex s = Inr hexStr" "length hexStr = 32" "uuid_Parse (hyphenate hexStr) = Inl err"
  shows "ExpandUUID_hex s = Inl (DecodeError s (ParseFailed err))"
  using assms by (simp add: ExpandUUID_hex_def)

lemma intToBase_in_alphabet:
  assumes "0 \<le> n"
  shows "\<forall>c \<in> set (intToBase n). (of_char c :: nat) \<in> set defaultBase62"
proof (cases "n = 0")
  case True
  then show ?thesis by (simp add: intToBase_0 defaultBase62_def)
next
  case False
  with assms have pos: "0 < n" by simp
  have "(of_char (char_of r :: char) :: nat) \<in> set defaultBase62" if "r \<in> set (collect n)" for r
  proof -
    from that collect_in_alphabet[of n] have r: "r \<in> set defaultBase62" by auto
    then have "r < 0x80" by (rule alphabet_ascii)
    then have "(of_char (char_of r :: char) :: nat) = r" by simp
    with r show ?thesis by simp
  qed
  then show ?thesis by (auto simp: intToBase_pos[OF pos])
qed

lemma intToBase_nonempty: "0 \<le> n \<Longrightarrow> intToBase n \<noteq> []"
proof (cases "n = 0")
  case True
  then show ?thesis by (simp add: intToBase_0)
next
  case False
  assume "0 \<le> n"
  with False have "0 < n" by simp
  then show ?thesis using intToBase_pos_head by blast
qed

lemma Bytes_fixture:
  "Bytes 0x4890586e32a54f9ca0002a2bb68eb1ce =
     [CHR 0x48, CHR 0x90, CHR 0x58, CHR 0x6e, CHR 0x32, CHR 0xa5, CHR 0x4f, CHR 0x9c,
      CHR 0xa0, CHR 0x00, CHR 0x2a, CHR 0x2b, CHR 0xb6, CHR 0x8e, CHR 0xb1, CHR 0xce]"
proof -
  have "SetBytes [CHR 0x48, CHR 0x90, CHR 0x58, CHR 0x6e, CHR 0x32, CHR 0xa5, CHR 0x4f, CHR 0x9c,
      CHR 0xa0, CHR 0x00, CHR 0x2a, CHR 0x2b, CHR 0xb6, CHR 0x8e, CHR 0xb1, CHR 0xce]
        = 0x4890586e32a54f9ca0002a2bb68eb1ce"
    by (simp add: SetBytes_def)
  then show ?thesis
    using Bytes_SetBytes[of "[CHR 0x48, CHR 0x90, CHR 0x58, CHR 0x6e, CHR 0x32, CHR 0xa5, CHR 0x4f, CHR 0x9c,
      CHR 0xa0, CHR 0x00, CHR 0x2a, CHR 0x2b, CHR 0xb6, CHR 0x8e, CHR 0xb1, CHR 0xce]"]
    by simp
qed

lemma baseToInt_fixture:
  "baseToInt ''2CvPdpytrcURpSLoPxYb30'' = Inr 0x4890586e32a54f9ca0002a2bb68eb1ce"
  by (simp add: baseToInt_def base62_eq alphabet_explicit)

lemma ExpandUUID_fixture:
  "ExpandUUID ''2CvPdpytrcURpSLoPxYb30''
     = Inl (DecodeError ''2CvPdpytrcURpSLoPxYb30'' (ParseFailed (InvalidLength 16)))"
  by (simp add: ExpandUUID_eq[OF baseToInt_fixture] Bytes_fixture uuid_Parse_def)

section \<open>The UUID codec of the hex revision against the specification\<close>

text \<open>
  \<open>ShortenUUID\<close> of the hex revision: the canonical string of \<open>u\<close> has 36 characters,
  without its hyphens it is the 32 hex digits of \<open>u\<close>, these parse in base 16 to
  the 128-bit integer value of \<open>u\<close>, and the result is the base-62 encoding of that
  value.
\<close>

theorem ShortenUUID_hex_encodes_value:
  assumes "length u = 16"
  shows "length (uuid_String u) = 36
       \<and> ReplaceAll_hyphen (uuid_String u) = hex_Encode u
       \<and> length (hex_Encode u) = 32
       \<and> parse_hex (hex_Encode u) = Some (uuid_value u)
       \<and> 0 \<le> uuid_value u \<and> uuid_value u < 2 ^ 128
       \<and> ShortenUUID_hex u = Inr (intToBase (uuid_value u))"
proof -
  from assms have ne: "u \<noteq> []" by auto
  have "nat (uuid_value u) < 256 ^ 16" using uuid_value_bound[of u] assms by simp
  then have "uuid_value u < 2 ^ 128" using uuid_value_nonneg[of u] by (simp add: nat_less_iff)
  then show ?thesis
    using assms uuid_value_nonneg[of u]
    by (simp add: length_uuid_String ReplaceAll_uuid_String length_hex_Encode
        parse_hex_hex_Encode[OF ne] ShortenUUID_hex_eq)
qed

text \<open>
  \<open>ExpandUUID\<close> of the hex revision passes on the error of \<open>baseToInt\<close>; otherwise it
  renders the decoded integer \<open>n\<close> in hex, padded on the left with \<open>0\<close> to 32
  characters. If \<open>n\<close> does not fit 128 bits the padded string is longer than 32 and
  the result is a \<open>DecodeError\<close> with the length; if it fits, the hyphens are put back
  in the groups 8-4-4-4-12, which gives the canonical string of the UUID of value \<open>n\<close>,
  the parse succeeds, and that UUID is returned.
\<close>

theorem ExpandUUID_hex_padding_and_errors:
  "(\<forall>err. baseToInt shortID = Inl err \<longrightarrow> ExpandUUID_hex shortID = Inl err)
   \<and> (\<forall>n. baseToInt shortID = Inr n \<longrightarrow>
         decodeHex shortID = Inr (replicate (32 - length (Text16 n)) (CHR ''0'') @ Text16 n)
         \<and> (2 ^ 128 \<le> n \<longrightarrow>
               32 < length (Text16 n)
               \<and> ExpandUUID_hex shortID
                   = Inl (DecodeError shortID (InvalidDecodedLength (length (Text16 n)))))
         \<and> (n < 2 ^ 128 \<longrightarrow>
               ExpandUUID_hex shortID = Inr (uuid_of_int n)
               \<and> uuid_value (uuid_of_int n) = n
               \<and> length (Sprintf_032s (Text16 n)) = 32
               \<and> hyphenate (Sprintf_032s (Text16 n)) = uuid_String (uuid_of_int n)
               \<and> uuid_Parse (uuid_String (uuid_of_int n)) = Inr (uuid_of_int n)))"
proof (intro conjI allI impI)
  fix err assume "baseToInt shortID = Inl err"
  then show "ExpandUUID_hex shortID = Inl err"
    by (simp add: ExpandUUID_hex_def decodeHex_def)
next
  fix n assume b: "baseToInt shortID = Inr n"
  show "decodeHex shortID = Inr (replicate (32 - length (Text16 n)) (CHR ''0'') @ Text16 n)"
    using b by (rule decodeHex_eq)
  {
    assume big: "2 ^ 128 \<le> n"
    show "32 < length (Text16 n)" using Sprintf_Text16_big[OF big] by simp
    show "ExpandUUID_hex shortID = Inl (DecodeError shortID (InvalidDecodedLength (length (Text16 n))))"
      using b big by (rule ExpandUUID_hex_big)
  }
  {
    assume small: "n < 2 ^ 128"
    have nn: "0 \<le> n" using b by (rule baseToInt_nonneg)
    show "ExpandUUID_hex shortID = Inr (uuid_of_int n)"
      using b small by (rule ExpandUUID_hex_small)
    show "uuid_value (uuid_of_int n) = n"
      using uuid_of_int_props[OF nn small] by simp
    show "length (Sprintf_032s (Text16 n)) = 32"
      by (simp add: Sprintf_Text16_small[OF nn small] length_hex_Encode length_uuid_of_int)
    show "hyphenate (Sprintf_032s (Text16 n)) = uuid_String (uuid_of_int n)"
      using uuid_of_int_props[OF nn small] by simp
    show "uuid_Parse (uuid_String (uuid_of_int n)) = Inr (uuid_of_int n)"
      by (rule Parse_String[OF length_uuid_of_int])
  }
qed

section \<open>Theorems\<close>

text \<open>
  C9. \<open>baseToInt\<close> (the spec's shortToInt) of the empty string is the integer zero with
  no error, and \<open>Expand\<close> of the empty string does not fail and returns the empty string.
\<close>

theorem C9_empty_short_id:
  "baseToInt [] = Inr 0 \<and> Expand [] = Inr []"
  by (simp add: baseToInt_def Expand_def decode_def Bytes_def bytes_of_nat.simps)

theorem C9_empty_short_id_witness:
  "Expand [] = Inr []"
  using C9_empty_short_id by simp

text \<open>
  C4. For every string \<open>s\<close> whose first byte is not zero, \<open>Expand (Shorten s)\<close>
  succeeds and returns exactly \<open>s\<close>.
\<close>

theorem C4_roundtrip_nonzero_leading:
  assumes "s \<noteq> []" and "hd s \<noteq> CHR 0x00"
  shows "\<exists>sid. Shorten s = Inr sid \<and> Expand sid = Inr s"
proof -
  from assms have "dropWhile (\<lambda>c. c = CHR 0x00) s = s"
    by (cases s) simp_all
  with Expand_Shorten[OF assms(1)] show ?thesis by simp
qed

theorem C4_roundtrip_nonzero_leading_witness:
  "''hello world'' \<noteq> [] \<and> hd ''hello world'' \<noteq> CHR 0x00 \<and>
   (\<exists>sid. Shorten ''hello world'' = Inr sid \<and> Expand sid = Inr ''hello world'')"
  using C4_roundtrip_nonzero_leading[of "''hello world''"] by simp

text \<open>
  C7. \<open>Shorten input\<close> fails if and only if \<open>input\<close> is the empty string, and the
  failure is the \<open>EncodeError\<close> that carries the input and the reason "input string
  cannot be empty". For every non-empty input it returns, with no error, a short ID:
  the base-62 encoding of the bytes of the input read as a big-endian integer, a
  non-empty string of alphabet symbols that \<open>baseToInt\<close> reads back to that integer.
\<close>

theorem C7_shorten_fails_iff_empty:
  "(Shorten input = Inl (EncodeError input EmptyInput) \<longleftrightarrow> input = [])
   \<and> ((\<exists>err. Shorten input = Inl err) \<longleftrightarrow> input = [])
   \<and> ((\<exists>shortID. Shorten input = Inr shortID) \<longleftrightarrow> input \<noteq> [])
   \<and> (input \<noteq> [] \<longrightarrow>
         Shorten input = Inr (intToBase (SetBytes input))
         \<and> intToBase (SetBytes input) \<noteq> []
         \<and> (\<forall>c \<in> set (intToBase (SetBytes input)). (of_char c :: nat) \<in> set defaultBase62)
         \<and> baseToInt (intToBase (SetBytes input)) = Inr (SetBytes input))"
proof -
  have nn: "0 \<le> SetBytes input" by (rule SetBytes_nonneg)
  have "(Shorten input = Inl (EncodeError input EmptyInput) \<longleftrightarrow> input = [])
   \<and> ((\<exists>err. Shorten input = Inl err) \<longleftrightarrow> input = [])
   \<and> ((\<exists>shortID. Shorten input = Inr shortID) \<longleftrightarrow> input \<noteq> [])"
    by (auto simp: Shorten_def encode_def)
  moreover have "Shorten input = Inr (intToBase (SetBytes input))" if "input \<noteq> []"
    using that by (simp add: Shorten_def encode_def)
  ultimately show ?thesis
    using intToBase_nonempty[OF nn] intToBase_in_alphabet[OF nn] baseToInt_intToBase[OF nn]
    by blast
qed

theorem C7_shorten_fails_iff_empty_witness:
  "Shorten [] = Inl (EncodeError [] EmptyInput) \<and> ''a'' \<noteq> [] \<and> Shorten ''a'' = Inr ''1Z''"
proof -
  have "intToBase (SetBytes ''a'') = ''1Z''"
    by (simp add: SetBytes_def intToBase_def intToBase_loop.simps base62_eq alphabet_explicit
        string_of_runes_def encoderune_def char_of_eq_iff)
  then show ?thesis
    using C7_shorten_fails_iff_empty[of "[]"] C7_shorten_fails_iff_empty[of "''a''"] by simp
qed

text \<open>
  C10. For every non-empty string \<open>s\<close>, \<open>Expand (Shorten s)\<close> succeeds and is \<open>s\<close>
  without its leading zero bytes; when every byte of \<open>s\<close> is zero, the short ID is
  the single zero symbol and the result is the empty string.
\<close>

theorem C10_roundtrip_strips_leading_zero_bytes:
  assumes "s \<noteq> []"
  shows "(\<exists>sid. Shorten s = Inr sid \<and> Expand sid = Inr (dropWhile (\<lambda>c. c = CHR 0x00) s))
       \<and> ((\<forall>c \<in> set s. c = CHR 0x00) \<longrightarrow> Shorten s = Inr ''0'' \<and> Expand ''0'' = Inr [])"
proof -
  have "Shorten s = Inr ''0'' \<and> Expand ''0'' = Inr []" if z: "\<forall>c \<in> set s. c = CHR 0x00"
  proof -
    from z have "SetBytes s = 0" by (simp only: SetBytes_zero_iff)
    then have sh: "Shorten s = Inr ''0''"
      using assms 
      by (simp add: Shorten_def encode_def intToBase_0)
    from z have "dropWhile (\<lambda>c. c = CHR 0x00) s = []" by simp
    with Expand_Shorten[OF assms] sh show ?thesis by simp
  qed
  with Expand_Shorten[OF assms] show ?thesis by blast
qed

theorem C10_roundtrip_strips_leading_zero_bytes_witness:
  "[CHR 0x00, CHR 0x00, CHR ''a'', CHR 0x00] \<noteq> [] \<and>
   (\<exists>sid. Shorten [CHR 0x00, CHR 0x00, CHR ''a'', CHR 0x00] = Inr sid \<and> Expand sid = Inr [CHR ''a'', CHR 0x00]) \<and>
   set [CHR 0x00, CHR 0x00] = {CHR 0x00} \<and>
   Shorten [CHR 0x00, CHR 0x00] = Inr ''0'' \<and> Expand ''0'' = Inr []"
  using C10_roundtrip_strips_leading_zero_bytes[of "[CHR 0x00, CHR 0x00, CHR ''a'', CHR 0x00]"]
    C10_roundtrip_strips_leading_zero_bytes[of "[CHR 0x00, CHR 0x00]"]
  by simp

text \<open>
  C8. For every non-negative integer \<open>n\<close>, \<open>intToBase n\<close> (the spec's intToShort) is
  the string obtained by dividing by 62 repeatedly, collecting the symbols of the
  remainders least significant first, and reversing. It is never empty, it begins with
  the zero symbol only when \<open>n\<close> is zero, where it is the single symbol of alphabet
  index 0, and read back from the left, most significant digit first, it gives \<open>n\<close>.
\<close>

theorem C8_intToBase_most_significant_first:
  assumes "0 \<le> n"
  shows "intToBase n = intToShort_spec n
       \<and> intToBase n \<noteq> []
       \<and> (hd (intToBase n) = char_of (defaultBase62 ! 0) \<longleftrightarrow> n = 0)
       \<and> (n = 0 \<longrightarrow> intToBase n = [char_of (defaultBase62 ! 0)])
       \<and> baseToInt (intToBase n) = Inr n"
proof (cases "n = 0")
  case True
  then show ?thesis
    using baseToInt_intToBase[of 0]
    by (simp add: intToShort_spec_def intToBase_def intToBase_0 zero_symbol
        string_of_runes_def encoderune_def defaultBase62_def)
next
  case False
  with assms have pos: "0 < n" by simp
  have "intToBase n = intToShort_spec n"
    using False by (simp add: intToShort_spec_def intToBase_def intToBase_loop_collect)
  with intToBase_pos_head[OF pos] baseToInt_intToBase[OF assms] False
  show ?thesis by (simp add: zero_symbol)
qed

theorem C8_intToBase_most_significant_first_witness:
  "(0::int) \<le> 3844 \<and> intToBase 3844 = ''100'' \<and> intToShort_spec 3844 = ''100''
   \<and> hd (intToBase 3844) \<noteq> CHR ''0'' \<and> (0::int) \<le> 0 \<and> intToBase 0 = ''0''"
  using C8_intToBase_most_significant_first[of 3844] C8_intToBase_most_significant_first[of 0]
  by (simp add: intToShort_spec_def collect.simps string_of_runes_def encoderune_def
      defaultBase62_def char_of_eq_iff)

text \<open>
  C6. \<open>baseToInt\<close> (the spec's shortToInt) reads the symbols of \<open>s\<close> from left to
  right with an accumulator that starts at zero and becomes \<open>accumulator * 62 + index\<close>
  at each symbol, the index being the case-sensitive position of the symbol in the
  alphabet. It fails if and only if some symbol of \<open>s\<close> is not in the alphabet, and
  the failure is a \<open>DecodeError\<close> that carries such a symbol (the first one) and the
  whole input. The symbols are the runes of \<open>s\<close>; all of them are in the alphabet
  exactly when all bytes of \<open>s\<close> are.
\<close>

theorem C6_baseToInt_accumulates_or_reports:
  "baseToInt s = shortToInt_spec s
   \<and> ((\<exists>err. baseToInt s = Inl err) \<longleftrightarrow> \<not> set (runes_of s) \<subseteq> set defaultBase62)
   \<and> (\<forall>err. baseToInt s = Inl err \<longrightarrow>
         (\<exists>r \<in> set (runes_of s). r \<notin> set defaultBase62 \<and> err = DecodeError s (InvalidCharacter r)))
   \<and> (set (runes_of s) \<subseteq> set defaultBase62 \<longleftrightarrow> (\<forall>c \<in> set s. of_char c \<in> set defaultBase62))
   \<and> (\<forall>r \<in> set (runes_of s). r \<in> set defaultBase62 \<longrightarrow>
         alphabet_index r < 62 \<and> defaultBase62 ! alphabet_index r = r)"
proof -
  have eq: "baseToInt s = shortToInt_spec s"
    by (simp add: baseToInt_def shortToInt_spec_def baseToInt_loop_spec)
  have fail: "(\<exists>err. baseToInt s = Inl err) \<longleftrightarrow> \<not> set (runes_of s) \<subseteq> set defaultBase62"
    unfolding eq shortToInt_spec_def
    by (auto simp: find_None_iff split: option.splits dest: find_SomeD)
  have carried: "\<exists>r \<in> set (runes_of s). r \<notin> set defaultBase62 \<and> err = DecodeError s (InvalidCharacter r)"
    if "baseToInt s = Inl err" for err
    using that unfolding eq shortToInt_spec_def
    by (auto split: option.splits dest: find_SomeD)
  have idx: "\<forall>r \<in> set (runes_of s). r \<in> set defaultBase62 \<longrightarrow>
         alphabet_index r < 62 \<and> defaultBase62 ! alphabet_index r = r"
    using alphabet_index_nth by blast
  from carried have carried':
    "\<forall>err. baseToInt s = Inl err \<longrightarrow>
         (\<exists>r \<in> set (runes_of s). r \<notin> set defaultBase62 \<and> err = DecodeError s (InvalidCharacter r))"
    by blast
  from eq fail carried' runes_bytes_alphabet[of s] idx show ?thesis
    by (intro conjI)
qed

theorem C6_baseToInt_accumulates_or_reports_witness:
  "baseToInt ''AAw'' = Inr ((10 * 62 + 10) * 62 + 58)
   \<and> set (runes_of ''AAw'') \<subseteq> set defaultBase62
   \<and> baseToInt ''a@#'' = Inl (DecodeError ''a@#'' (InvalidCharacter 64))
   \<and> \<not> set (runes_of ''a@#'') \<subseteq> set defaultBase62"
proof -
  have ok: "baseToInt ''AAw'' = shortToInt_spec ''AAw''"
    by (rule C6_baseToInt_accumulates_or_reports[THEN conjunct1])
  have bad: "baseToInt ''a@#'' = shortToInt_spec ''a@#''"
    by (rule C6_baseToInt_accumulates_or_reports[THEN conjunct1])
  have "shortToInt_spec ''AAw'' = Inr ((10 * 62 + 10) * 62 + 58)"
    by (simp add: shortToInt_spec_def alphabet_index_def defaultBase62_def)
  moreover have "shortToInt_spec ''a@#'' = Inl (DecodeError ''a@#'' (InvalidCharacter 64))"
    by (simp add: shortToInt_spec_def alphabet_index_def defaultBase62_def)
  moreover have "set (runes_of ''AAw'') \<subseteq> set defaultBase62"
    by (simp add: defaultBase62_def)
  moreover have "\<not> set (runes_of ''a@#'') \<subseteq> set defaultBase62"
    by (simp add: defaultBase62_def)
  ultimately show ?thesis using ok bad by simp
qed

text \<open>
  C1. For every 128-bit UUID value \<open>u\<close> (sixteen bytes), \<open>ExpandUUID (ShortenUUID u)\<close>
  succeeds and returns \<open>u\<close> itself, all sixteen bytes and so its version and variant
  bits too. This holds for the codec of \<open>shortuuid.go\<close> and for that of the hex
  revision.
\<close>

theorem C1_uuid_roundtrip:
  assumes "length u = 16"
  shows "(\<exists>sid. ShortenUUID u = Inr sid \<and> ExpandUUID sid = Inr u)
       \<and> (\<exists>sid. ShortenUUID_hex u = Inr sid \<and> ExpandUUID_hex sid = Inr u)"
  using ExpandUUID_ShortenUUID[OF assms] ExpandUUID_hex_ShortenUUID_hex[OF assms] by simp

theorem C1_uuid_roundtrip_witness:
  "length [0x48, 0x90, 0x58, 0x6e, 0x32, 0xa5, 0x4f, 0x9c, 0xa0, 0x00, 0x2a, 0x2b, 0xb6, 0x8e, 0xb1, 0xce :: 8 word] = 16
   \<and> (\<exists>sid. ShortenUUID [0x48, 0x90, 0x58, 0x6e, 0x32, 0xa5, 0x4f, 0x9c, 0xa0, 0x00, 0x2a, 0x2b, 0xb6, 0x8e, 0xb1, 0xce] = Inr sid
          \<and> ExpandUUID sid = Inr [0x48, 0x90, 0x58, 0x6e, 0x32, 0xa5, 0x4f, 0x9c, 0xa0, 0x00, 0x2a, 0x2b, 0xb6, 0x8e, 0xb1, 0xce])
   \<and> (\<exists>sid. ShortenUUID_hex [0x48, 0x90, 0x58, 0x6e, 0x32, 0xa5, 0x4f, 0x9c, 0xa0, 0x00, 0x2a, 0x2b, 0xb6, 0x8e, 0xb1, 0xce] = Inr sid
          \<and> ExpandUUID_hex sid = Inr [0x48, 0x90, 0x58, 0x6e, 0x32, 0xa5, 0x4f, 0x9c, 0xa0, 0x00, 0x2a, 0x2b, 0xb6, 0x8e, 0xb1, 0xce])"
  using C1_uuid_roundtrip[of "[0x48, 0x90, 0x58, 0x6e, 0x32, 0xa5, 0x4f, 0x9c, 0xa0, 0x00, 0x2a, 0x2b, 0xb6, 0x8e, 0xb1, 0xce]"]
  by simp

text \<open>
  C2. \<open>ShortenUUID u\<close> is to format \<open>u\<close> as the canonical string, strip the hyphens,
  parse the 32 hex digits in base 16 and encode that integer, so that it equals the
  base-62 encoding of the 128-bit integer value of \<open>u\<close>. At the all-zero UUID, whose
  value is zero and has the encoding \<open>0\<close>, the hex revision returns \<open>0\<close>, and
  \<open>ShortenUUID\<close> of \<open>shortuuid.go\<close> returns the 48 symbols that encode the 36 bytes of
  the canonical string instead.
\<close>

theorem C2_ShortenUUID_at_nil_uuid:
  "ShortenUUID nil_uuid = Inr ''rZPELhMUZzQ6153VPkcPQAzJsDKO9ygnfeDZBh4Cffxj9amO''
   \<and> uuid_value nil_uuid = 0
   \<and> intToBase (uuid_value nil_uuid) = ''0''
   \<and> ShortenUUID nil_uuid \<noteq> Inr (intToBase (uuid_value nil_uuid))
   \<and> ShortenUUID_hex nil_uuid = Inr (intToBase (uuid_value nil_uuid))"
  by (simp add: ShortenUUID_nil uuid_value_nil intToBase_0 ShortenUUID_hex_eq[OF length_nil_uuid])

theorem C2_ShortenUUID_at_nil_uuid_witness:
  "ShortenUUID (replicate 16 0) = Inr ''rZPELhMUZzQ6153VPkcPQAzJsDKO9ygnfeDZBh4Cffxj9amO''
   \<and> ShortenUUID_hex (replicate 16 0) = Inr ''0''"
proof -
  have "ShortenUUID nil_uuid = Inr ''rZPELhMUZzQ6153VPkcPQAzJsDKO9ygnfeDZBh4Cffxj9amO''"
    using C2_ShortenUUID_at_nil_uuid by (elim conjE)
  moreover have "ShortenUUID_hex nil_uuid = Inr ''0''"
    using C2_ShortenUUID_at_nil_uuid by (elim conjE) simp
  ultimately show ?thesis by (simp add: nil_uuid_def)
qed

text \<open>
  C3. \<open>ExpandUUID\<close> applied to the single zero symbol \<open>0\<close> is to succeed and yield the
  all-zero UUID 00000000-0000-0000-0000-000000000000. The hex revision does so.
  \<open>ExpandUUID\<close> of \<open>shortuuid.go\<close> fails on it with a \<open>DecodeError\<close>: \<open>Expand\<close> of the
  zero symbol is the empty string, which \<open>uuid.Parse\<close> rejects for its length.
\<close>

theorem C3_ExpandUUID_at_zero_symbol:
  "ExpandUUID ''0'' = Inl (DecodeError ''0'' (ParseFailed (InvalidLength 0)))
   \<and> Expand ''0'' = Inr []
   \<and> ExpandUUID_hex ''0'' = Inr nil_uuid
   \<and> uuid_String nil_uuid = ''00000000-0000-0000-0000-000000000000''"
proof -
  have b: "baseToInt ''0'' = Inr 0"
    by (simp add: baseToInt_def base62_eq alphabet_explicit)
  have "ExpandUUID_hex ''0'' = Inr (uuid_of_int 0)"
    by (rule ExpandUUID_hex_small[OF b]) simp
  moreover have "uuid_of_int 0 = nil_uuid"
    by (simp add: uuid_of_int_def be_bytes_zero nil_uuid_def)
  ultimately show ?thesis
    by (simp add: uuid_String_nil Expand_zero_symbol ExpandUUID_def uuid_Parse_def)
qed

theorem C3_ExpandUUID_at_zero_symbol_witness:
  "ExpandUUID_hex ''0'' = Inr (replicate 16 0)
   \<and> ExpandUUID ''0'' = Inl (DecodeError ''0'' (ParseFailed (InvalidLength 0)))"
  using C3_ExpandUUID_at_zero_symbol by (simp add: nil_uuid_def)

text \<open>
  C5. \<open>ExpandUUID\<close> is to render the decoded integer as hex padded with \<open>0\<close> to 32
  characters, to fail with a \<open>DecodeError\<close> when the padded length is not 32 (the
  integer does not fit 128 bits), and otherwise to put the hyphens back and parse.
  \<open>ExpandUUID\<close> of \<open>shortuuid.go\<close> has neither the padding nor the length check. The
  short ID \<open>1\<close>, whose integer fits 128 bits, is rejected, where the hex revision gives
  the UUID of value 1. The short ID \<open>2CvPdpytrcURpSLoPxYb30\<close> of the documented
  fixture, whose integer fits 128 bits too, is rejected because the sixteen raw bytes
  are not a UUID string, where the hex revision gives the UUID of that value. The 48
  symbols that encode the canonical string of the all-zero UUID decode to an integer
  above \<open>2^128\<close> and are expanded with no error, where the hex revision fails with
  the length.
\<close>

theorem C5_ExpandUUID_at_failing_inputs:
  "baseToInt ''1'' = Inr 1
   \<and> ExpandUUID ''1'' = Inl (DecodeError ''1'' (ParseFailed (InvalidLength 1)))
   \<and> ExpandUUID_hex ''1'' = Inr (uuid_of_int 1)
   \<and> baseToInt ''2CvPdpytrcURpSLoPxYb30'' = Inr 0x4890586e32a54f9ca0002a2bb68eb1ce
   \<and> ExpandUUID ''2CvPdpytrcURpSLoPxYb30''
       = Inl (DecodeError ''2CvPdpytrcURpSLoPxYb30'' (ParseFailed (InvalidLength 16)))
   \<and> ExpandUUID_hex ''2CvPdpytrcURpSLoPxYb30''
       = Inr (uuid_of_int 0x4890586e32a54f9ca0002a2bb68eb1ce)
   \<and> baseToInt ''rZPELhMUZzQ6153VPkcPQAzJsDKO9ygnfeDZBh4Cffxj9amO''
       = Inr 93613785677136309111285427482042669821784079333893112000368165842124308540514615963696
   \<and> (2::int) ^ 128 \<le> 93613785677136309111285427482042669821784079333893112000368165842124308540514615963696
   \<and> ExpandUUID ''rZPELhMUZzQ6153VPkcPQAzJsDKO9ygnfeDZBh4Cffxj9amO'' = Inr nil_uuid
   \<and> ExpandUUID_hex ''rZPELhMUZzQ6153VPkcPQAzJsDKO9ygnfeDZBh4Cffxj9amO''
       = Inl (DecodeError ''rZPELhMUZzQ6153VPkcPQAzJsDKO9ygnfeDZBh4Cffxj9amO''
               (InvalidDecodedLength (length (Text16
                 93613785677136309111285427482042669821784079333893112000368165842124308540514615963696))))"
proof -
  have one: "baseToInt ''1'' = Inr 1"
    by (simp add: baseToInt_def base62_eq alphabet_explicit)
  have a1: "ExpandUUID ''1'' = Inl (DecodeError ''1'' (ParseFailed (InvalidLength 1)))"
    by (simp add: ExpandUUID_eq[OF one] Bytes_def bytes_of_nat.simps uuid_Parse_def)
  have h1: "ExpandUUID_hex ''1'' = Inr (uuid_of_int 1)"
    by (rule ExpandUUID_hex_small[OF one]) simp
  have hf: "ExpandUUID_hex ''2CvPdpytrcURpSLoPxYb30''
       = Inr (uuid_of_int 0x4890586e32a54f9ca0002a2bb68eb1ce)"
    by (rule ExpandUUID_hex_small[OF baseToInt_fixture]) simp
  have big: "(2::int) ^ 128 \<le> 93613785677136309111285427482042669821784079333893112000368165842124308540514615963696"
    by simp
  have an: "ExpandUUID ''rZPELhMUZzQ6153VPkcPQAzJsDKO9ygnfeDZBh4Cffxj9amO'' = Inr nil_uuid"
    using ExpandUUID_ShortenUUID[OF length_nil_uuid] by (simp add: ShortenUUID_nil)
  have hn: "ExpandUUID_hex ''rZPELhMUZzQ6153VPkcPQAzJsDKO9ygnfeDZBh4Cffxj9amO''
       = Inl (DecodeError ''rZPELhMUZzQ6153VPkcPQAzJsDKO9ygnfeDZBh4Cffxj9amO''
               (InvalidDecodedLength (length (Text16
                 93613785677136309111285427482042669821784079333893112000368165842124308540514615963696))))"
    by (rule ExpandUUID_hex_big[OF baseToInt_nil_id big])
  from one a1 h1 baseToInt_fixture ExpandUUID_fixture hf baseToInt_nil_id big an hn
  show ?thesis by (intro conjI)
qed

theorem C5_ExpandUUID_at_failing_inputs_witness:
  "ExpandUUID ''1'' = Inl (DecodeError ''1'' (ParseFailed (InvalidLength 1)))
   \<and> ExpandUUID ''rZPELhMUZzQ6153VPkcPQAzJsDKO9ygnfeDZBh4Cffxj9amO'' = Inr (replicate 16 0)"
proof -
  have "ExpandUUID ''1'' = Inl (DecodeError ''1'' (ParseFailed (InvalidLength 1)))"
    using C5_ExpandUUID_at_failing_inputs by (elim conjE)
  moreover have "ExpandUUID ''rZPELhMUZzQ6153VPkcPQAzJsDKO9ygnfeDZBh4Cffxj9amO'' = Inr nil_uuid"
    using C5_ExpandUUID_at_failing_inputs by (elim conjE)
  ultimately show ?thesis by (simp add: nil_uuid_def)
qed

end
